theory Spec2Isabelle
  imports Main "HOL-Library.Char_ord" "HOL-Library.List_Lexorder" "HOL-Library.AList"
begin

section \<open>Strings and character classes\<close>

text \<open>
  JavaScript strings are modelled as lists of 8-bit characters, each read as the code unit
  of the same number (U+0000 to U+00FF).  The classes below are the regular-expression
  classes of the generator restricted to that range.
\<close>

definition is_word :: "char \<Rightarrow> bool" where
  \<comment> \<open>the class \<open>\w\<close>\<close>
  "is_word c = (c \<in> set ''ABCDEFGHIJKLMNOPQRSTUVWXYZabcdefghijklmnopqrstuvwxyz0123456789_'')"

definition is_space :: "char \<Rightarrow> bool" where
  \<comment> \<open>the class \<open>\s\<close>: tab, line feed, vertical tab, form feed, carriage return, space, no-break space\<close>
  "is_space c = (c \<in> set [CHR 0x09, CHR 0x0A, CHR 0x0B, CHR 0x0C, CHR 0x0D, CHR 0x20, CHR 0xA0])"

definition is_line_terminator :: "char \<Rightarrow> bool" where
  \<comment> \<open>the characters that \<open>.\<close> does not match\<close>
  "is_line_terminator c = (c \<in> set [CHR 0x0A, CHR 0x0D])"

definition is_key_char :: "char \<Rightarrow> bool" where
  \<comment> \<open>the class \<open>[\w-]\<close> of citation keys\<close>
  "is_key_char c = (is_word c \<or> c = CHR ''-'')"

definition upper_case :: string where
  "upper_case = ''ABCDEFGHIJKLMNOPQRSTUVWXYZ'' @
     [CHR 0xC0, CHR 0xC1, CHR 0xC2, CHR 0xC3, CHR 0xC4, CHR 0xC5, CHR 0xC6, CHR 0xC7,
      CHR 0xC8, CHR 0xC9, CHR 0xCA, CHR 0xCB, CHR 0xCC, CHR 0xCD, CHR 0xCE, CHR 0xCF,
      CHR 0xD0, CHR 0xD1, CHR 0xD2, CHR 0xD3, CHR 0xD4, CHR 0xD5, CHR 0xD6,
      CHR 0xD8, CHR 0xD9, CHR 0xDA, CHR 0xDB, CHR 0xDC, CHR 0xDD, CHR 0xDE]"

definition lower_case :: string where
  "lower_case = ''abcdefghijklmnopqrstuvwxyz'' @
     [CHR 0xE0, CHR 0xE1, CHR 0xE2, CHR 0xE3, CHR 0xE4, CHR 0xE5, CHR 0xE6, CHR 0xE7,
      CHR 0xE8, CHR 0xE9, CHR 0xEA, CHR 0xEB, CHR 0xEC, CHR 0xED, CHR 0xEE, CHR 0xEF,
      CHR 0xF0, CHR 0xF1, CHR 0xF2, CHR 0xF3, CHR 0xF4, CHR 0xF5, CHR 0xF6,
      CHR 0xF8, CHR 0xF9, CHR 0xFA, CHR 0xFB, CHR 0xFC, CHR 0xFD, CHR 0xFE]"

definition toLowerCase :: "string \<Rightarrow> string" where
  "toLowerCase s =
     map (\<lambda>c. case map_of (zip upper_case lower_case) c of Some l \<Rightarrow> l | None \<Rightarrow> c) s"

definition quote :: string where
  \<comment> \<open>the double quote character, as a string\<close>
  "quote = [CHR 0x22]"

text \<open>
  A value that is a string or \<open>undefined\<close> is a \<open>string option\<close>.  \<open>or_empty\<close> is the
  idiom \<open>(str || '')\<close>, which is also what \<open>Array.prototype.join\<close> prints for an
  undefined element; \<open>template\<close> is what a template literal prints.
\<close>

definition or_empty :: "string option \<Rightarrow> string" where
  "or_empty str = (case str of None \<Rightarrow> [] | Some s \<Rightarrow> s)"

definition template :: "string option \<Rightarrow> string" where
  "template str = (case str of None \<Rightarrow> ''undefined'' | Some s \<Rightarrow> s)"

fun join :: "string \<Rightarrow> string list \<Rightarrow> string" where
  "join sep [] = []"
| "join sep [x] = x"
| "join sep (x # y # ys) = x @ sep @ join sep (y # ys)"

text \<open>The decimal numeral of a number, as \<open>join\<close> prints the suffix counter.\<close>

function show_nat :: "nat \<Rightarrow> string" where
  "show_nat n =
     (if n < 10 then [''0123456789'' ! n]
      else show_nat (n div 10) @ [''0123456789'' ! (n mod 10)])"
  by pat_completeness auto
termination
  by (relation "measure id") auto

declare show_nat.simps [simp del]

section \<open>The helpers \<open>esc\<close> and \<open>norm\<close>\<close>

definition replace_char :: "char \<Rightarrow> string \<Rightarrow> string \<Rightarrow> string" where
  \<comment> \<open>\<open>s.replace(/c/g, r)\<close> for a single character \<open>c\<close>\<close>
  "replace_char c r s = concat (map (\<lambda>x. if x = c then r else [x]) s)"

definition esc :: "string option \<Rightarrow> string" where
  "esc str =
     replace_char (CHR 0x22) ''&quot;''
       (replace_char CHR ''<'' ''&lt;''
         (replace_char CHR ''&'' ''&amp;'' (or_empty str)))"

definition drop_trailing :: "('a \<Rightarrow> bool) \<Rightarrow> 'a list \<Rightarrow> 'a list" where
  \<comment> \<open>the list without its longest suffix of elements of \<open>P\<close>\<close>
  "drop_trailing P s = rev (dropWhile P (rev s))"

definition trim_spaces :: "string \<Rightarrow> string" where
  \<comment> \<open>\<open>replace(/^\s+|\s+$/g, '')\<close>: the leading and the trailing run of white space go\<close>
  "trim_spaces s = drop_trailing is_space (dropWhile is_space s)"

definition norm :: "string option \<Rightarrow> string" where
  "norm str = trim_spaces (map (\<lambda>c. if is_space c then CHR '' '' else c) (or_empty str))"

section \<open>Slugs\<close>

fun collapse_hyphens :: "string \<Rightarrow> string" where
  \<comment> \<open>\<open>replace(/-{2,}/g, '-')\<close>\<close>
  "collapse_hyphens (a # b # cs) =
     (if a = CHR ''-'' \<and> b = CHR ''-'' then collapse_hyphens (b # cs)
      else a # collapse_hyphens (b # cs))"
| "collapse_hyphens cs = cs"

definition strip_hyphen :: "string \<Rightarrow> string" where
  \<comment> \<open>\<open>replace(/^-|-$/g, '')\<close>: one hyphen at the start and one at the end go\<close>
  "strip_hyphen s =
     (let s1 = (case s of [] \<Rightarrow> [] | c # cs \<Rightarrow> if c = CHR ''-'' then cs else s)
      in if s1 \<noteq> [] \<and> last s1 = CHR ''-'' then butlast s1 else s1)"

definition slug_text :: "string \<Rightarrow> string" where
  \<comment> \<open>the constant \<open>txt\<close> of \<open>slugify\<close>\<close>
  "slug_text t =
     strip_hyphen (collapse_hyphens
       (map (\<lambda>c. if is_word c then c else CHR ''-'')
         (toLowerCase (let n = norm (Some t) in if n = [] then ''empty'' else n))))"

definition idify :: "string \<Rightarrow> string \<Rightarrow> nat \<Rightarrow> string" where
  \<comment> \<open>\<open>[pfx, txt, suf].filter(Boolean).join('-')\<close>; the counter \<open>suf\<close> is falsy when it is
      undefined or 0, both written 0 here\<close>
  "idify pfx txt suf =
     join ''-'' (filter (\<lambda>s. s \<noteq> []) [pfx, txt] @ (if suf = 0 then [] else [show_nat suf]))"

section \<open>The document tree\<close>

text \<open>
  A document is the list of its elements in tree order.  Of an element the generator
  reads and writes the tag name, the attributes \<open>id\<close>, \<open>href\<close> and \<open>class\<close>, and reads
  its text content.
\<close>

record element =
  tag :: string
  attr_id :: "string option"
  attr_href :: "string option"
  className :: string
  textContent :: string

type_synonym document = "element list"

definition getElementById :: "document \<Rightarrow> string \<Rightarrow> bool" where
  \<comment> \<open>whether the lookup finds an element; no element has the empty string as its ID\<close>
  "getElementById doc i = (i \<noteq> [] \<and> (\<exists>e \<in> set doc. attr_id e = Some i))"

text \<open>
  The search loop of \<open>slugify\<close>.  It has no bound of its own, so it is a partial function:
  \<open>None\<close> stands for a search that never ends.
\<close>

partial_function (option) unique_id :: "document \<Rightarrow> string \<Rightarrow> string \<Rightarrow> nat \<Rightarrow> string option" where
  "unique_id doc pfx txt suf =
     (if getElementById doc (idify pfx txt suf) then unique_id doc pfx txt (Suc suf)
      else Some (idify pfx txt suf))"

declare unique_id.simps [code]

definition slugify :: "document \<Rightarrow> element \<Rightarrow> string \<Rightarrow> bool \<Rightarrow> string option" where
  "slugify doc el pfx unique =
     (case attr_id el of
        Some i \<Rightarrow> Some i
      | None \<Rightarrow>
          (let txt = slug_text (textContent el)
           in if unique then unique_id doc pfx txt 0 else Some (idify pfx txt 0)))"

text \<open>
  The two passes of the resolver.  Each walks the elements in tree order; the elements
  already visited are \<open>seen\<close>, and every lookup is against the whole document as it is at
  that moment.
\<close>

fun assign_dfn_ids :: "document \<Rightarrow> element list \<Rightarrow> document option" where
  "assign_dfn_ids seen [] = Some seen"
| "assign_dfn_ids seen (dfn # rest) =
     (if tag dfn = ''dfn'' then
        (case slugify (seen @ dfn # rest) dfn ''dfn'' True of
           None \<Rightarrow> None
         | Some i \<Rightarrow> assign_dfn_ids (seen @ [dfn\<lparr>attr_id := Some i\<rparr>]) rest)
      else assign_dfn_ids (seen @ [dfn]) rest)"

fun resolve_links :: "document \<Rightarrow> element list \<Rightarrow> string list \<Rightarrow> (document \<times> string list) option" where
  "resolve_links seen [] errs = Some (seen, errs)"
| "resolve_links seen (a # rest) errs =
     (if tag a = ''a'' \<and> attr_href a = None then
        (case slugify (seen @ a # rest) a ''dfn'' False of
           None \<Rightarrow> None
         | Some i \<Rightarrow>
             if getElementById (seen @ a # rest) i
             then resolve_links (seen @ [a\<lparr>attr_href := Some (''#'' @ i), className := ''dfn-ref''\<rparr>]) rest errs
             else resolve_links (seen @ [a]) rest
                    (errs @ [''Empty link '' @ quote @ textContent a @ quote @ '' (#'' @ i
                              @ '') has no matching dfn.'']))
      else resolve_links (seen @ [a]) rest errs)"

definition resolver :: "document \<Rightarrow> string list \<Rightarrow> (document \<times> string list) option" where
  "resolver doc errs =
     (case assign_dfn_ids [] doc of None \<Rightarrow> None | Some d \<Rightarrow> resolve_links [] d errs)"

section \<open>Objects used as dictionaries\<close>

text \<open>
  The bibliography and the person registry are plain objects parsed from JSON, held here
  as maps of their own properties.  A read \<open>obj[key]\<close> also finds the members every plain
  object inherits from \<open>Object.prototype\<close>: the result is the own property, an inherited
  member (named by its key), or \<open>undefined\<close>.
\<close>

definition object_prototype :: "string list" where
  "object_prototype =
     [''constructor'', ''__defineGetter__'', ''__defineSetter__'', ''hasOwnProperty'',
      ''__lookupGetter__'', ''__lookupSetter__'', ''isPrototypeOf'', ''propertyIsEnumerable'',
      ''toString'', ''valueOf'', ''__proto__'', ''toLocaleString'']"

datatype 'a property = Undefined | Own 'a | Member string

definition js_get :: "(string \<rightharpoonup> 'a) \<Rightarrow> string \<Rightarrow> 'a property" where
  "js_get obj k =
     (case obj k of
        Some v \<Rightarrow> Own v
      | None \<Rightarrow> if k \<in> set object_prototype then Member k else Undefined)"

definition js_set :: "(string \<rightharpoonup> 'a) \<Rightarrow> string \<Rightarrow> 'a \<Rightarrow> (string \<rightharpoonup> 'a)" where
  \<comment> \<open>\<open>obj[key] = v\<close>; on an object without an own \<open>__proto__\<close> that key is the inherited
      setter, which stores no property\<close>
  "js_set obj k v = (if k = ''__proto__'' \<and> obj k = None then obj else obj(k \<mapsto> v))"

fun truthy :: "string property \<Rightarrow> bool" where
  "truthy Undefined = False"
| "truthy (Own s) = (s \<noteq> [])"
| "truthy (Member k) = True"

section \<open>Self-citations\<close>

record person =
  name :: string
  email :: string
  site :: string

datatype error = TypeError string

definition member_name :: "string \<Rightarrow> string option" where
  \<comment> \<open>the \<open>name\<close> of an inherited member: the function's name, and none for the prototype
      object itself\<close>
  "member_name k =
     (if k = ''__proto__'' then None
      else if k = ''constructor'' then Some ''Object'' else Some k)"

definition author_name :: "(string \<rightharpoonup> person) \<Rightarrow> string \<Rightarrow> error + string option" where
  \<comment> \<open>\<open>people[au].name\<close>\<close>
  "author_name people au =
     (case js_get people au of
        Undefined \<Rightarrow> Inl (TypeError au)
      | Own p \<Rightarrow> Inr (Some (name p))
      | Member k \<Rightarrow> Inr (member_name k))"

fun author_names :: "(string \<rightharpoonup> person) \<Rightarrow> string list \<Rightarrow> error + string option list" where
  "author_names people [] = Inr []"
| "author_names people (au # aus) =
     (case author_name people au of
        Inl e \<Rightarrow> Inl e
      | Inr n \<Rightarrow> (case author_names people aus of Inl e \<Rightarrow> Inl e | Inr ns \<Rightarrow> Inr (n # ns)))"

fun mark_last :: "string option list \<Rightarrow> string option list" where
  \<comment> \<open>the \<open>map\<close> of \<open>joinList\<close>: the last element gets the ampersand\<close>
  "mark_last [] = []"
| "mark_last [au] = [Some (''& '' @ template au)]"
| "mark_last (au # aus) = au # mark_last aus"

fun joinList :: "string option list \<Rightarrow> string option" where
  "joinList [a] = a"
| "joinList [a, b] = Some (join '' & '' (map or_empty [a, b]))"
| "joinList authors = Some (join '', '' (map or_empty (mark_last authors)))"

record reference =
  author :: "string option"
  title :: "string option"
  date :: "string option"
  url :: "string option"

definition htmlifyReference :: "reference \<Rightarrow> string" where
  "htmlifyReference r =
     esc (author r) @ ''. <a href='' @ quote @ esc (url r) @ quote @ ''><cite>'' @ esc (title r)
       @ ''</cite></a>. '' @ esc (date r) @ ''. URL:&nbsp;<a href='' @ quote @ esc (url r) @ quote
       @ ''>'' @ esc (url r) @ ''</a>''"

text \<open>
  The clock.  A reading is held as its UTC calendar fields; \<open>toISOString\<close> prints them, with
  a sign and six digits for a year beyond 9999.
\<close>

record instant =
  year :: nat
  month :: nat
  day :: nat
  hours :: nat
  minutes :: nat
  seconds :: nat
  millis :: nat

definition pad :: "nat \<Rightarrow> nat \<Rightarrow> string" where
  "pad w n = replicate (w - length (show_nat n)) CHR ''0'' @ show_nat n"

definition toISOString :: "instant \<Rightarrow> string" where
  "toISOString d =
     (if year d \<le> 9999 then pad 4 (year d) else ''+'' @ pad 6 (year d)) @ ''-'' @ pad 2 (month d)
       @ ''-'' @ pad 2 (day d) @ ''T'' @ pad 2 (hours d) @ '':'' @ pad 2 (minutes d) @ '':''
       @ pad 2 (seconds d) @ ''.'' @ pad 3 (millis d) @ ''Z''"

fun strip_time :: "string \<Rightarrow> string" where
  \<comment> \<open>\<open>replace(/T.+/, '')\<close>: the first T that a character other than a line terminator
      follows goes, with the rest of its line\<close>
  "strip_time [] = []"
| "strip_time (c # cs) =
     (if c = CHR ''T'' \<and> cs \<noteq> [] \<and> \<not> is_line_terminator (hd cs)
      then dropWhile (\<lambda>x. \<not> is_line_terminator x) cs
      else c # strip_time cs)"

definition today :: "instant \<Rightarrow> string" where
  "today now = strip_time (toISOString now)"

text \<open>
  A source document, as \<open>build\<close> holds it in \<open>specs\<close>: its title, its author identifiers
  and its elements.
\<close>

record spec =
  doc_title :: string
  authors :: "string list"
  elements :: document

text \<open>
  The first loop over \<open>Object.keys(specs)\<close>.  The \<open>n\<close>-th call of \<open>new Date()\<close> in a build
  reads \<open>clock n\<close>.  A missing person makes \<open>people[au].name\<close> throw, which ends the build.
\<close>

fun merge_self_citations ::
  "(string \<rightharpoonup> person) \<Rightarrow> (nat \<Rightarrow> instant) \<Rightarrow> nat \<Rightarrow> (string \<times> spec) list
    \<Rightarrow> (string \<rightharpoonup> string) \<Rightarrow> error + (string \<rightharpoonup> string)" where
  "merge_self_citations people clock n [] bibliography = Inr bibliography"
| "merge_self_citations people clock n ((shortname, s) # rest) bibliography =
     (case author_names people (authors s) of
        Inl e \<Rightarrow> Inl e
      | Inr names \<Rightarrow>
          merge_self_citations people clock (Suc n) rest
            (js_set bibliography shortname
               (htmlifyReference
                  \<lparr>author = joinList names, title = Some (doc_title s),
                   date = Some (today (clock n)),
                   url = Some (''https://dasl.ing/'' @ shortname @ ''.html'')\<rparr>)))"

section \<open>Citation markers\<close>

definition match_marker :: "string \<Rightarrow> (string \<times> string) option" where
  \<comment> \<open>a match of \<open>/\[\[([\w-]+)\]\]/\<close> at the start of the text: the key and what follows\<close>
  "match_marker s =
     (case s of
        c1 # c2 # r \<Rightarrow>
          if c1 = CHR ''['' \<and> c2 = CHR ''['' then
            (case dropWhile is_key_char r of
               d1 # d2 # rest \<Rightarrow>
                 if takeWhile is_key_char r \<noteq> [] \<and> d1 = CHR '']'' \<and> d2 = CHR '']''
                 then Some (takeWhile is_key_char r, rest) else None
             | _ \<Rightarrow> None)
          else None
      | _ \<Rightarrow> None)"

text \<open>
  \<open>refs\<close> is a fresh object filled by \<open>refs[ref] = bibliography[ref]\<close>; its properties are
  kept as a list because its keys are counted and sorted afterwards.
\<close>

type_synonym refs = "(string \<times> string property) list"

definition refs_set :: "refs \<Rightarrow> string \<Rightarrow> string property \<Rightarrow> refs" where
  "refs_set refs k v =
     (if k = ''__proto__'' \<and> map_of refs k = None then refs else AList.update k v refs)"

definition marker :: "string \<Rightarrow> string" where
  \<comment> \<open>the text of a marker, which the callback returns for a key it does not find\<close>
  "marker ref = ''[['' @ ref @ '']]''"

definition ref_link :: "string \<Rightarrow> string" where
  \<comment> \<open>the link that replaces a marker\<close>
  "ref_link ref =
     ''[<a href='' @ quote @ ''#ref-'' @ ref @ quote @ '' class='' @ quote @ ''ref'' @ quote
       @ ''>'' @ ref @ ''</a>]''"

definition no_entry :: "string \<Rightarrow> string" where
  \<comment> \<open>the message of the error for a key that is not found\<close>
  "no_entry ref = ''No '' @ quote @ ref @ quote @ '' entry in the bibliography.''"

definition cite :: "(string \<rightharpoonup> string) \<Rightarrow> string \<Rightarrow> refs \<times> string list \<Rightarrow> string \<times> refs \<times> string list" where
  \<comment> \<open>the replacement callback, on the state of \<open>refs\<close> and of the error log\<close>
  "cite bibliography ref st =
     (case st of (refs, errs) \<Rightarrow>
        if \<not> truthy (js_get bibliography ref)
        then (marker ref, refs, errs @ [no_entry ref])
        else (ref_link ref, refs_set refs ref (js_get bibliography ref), errs))"

function expand :: "(string \<rightharpoonup> string) \<Rightarrow> string \<Rightarrow> refs \<times> string list \<Rightarrow> string \<times> refs \<times> string list" where
  "expand bibliography [] st = ([], st)"
| "expand bibliography (c # cs) st =
     (case match_marker (c # cs) of
        Some (ref, rest) \<Rightarrow>
          (case cite bibliography ref st of
             (out, st') \<Rightarrow>
               (case expand bibliography rest st' of (outs, st'') \<Rightarrow> (out @ outs, st'')))
      | None \<Rightarrow> (case expand bibliography cs st of (outs, st') \<Rightarrow> (c # outs, st')))"
  by pat_completeness auto
termination
proof (relation "measure (\<lambda>(b, s, st). length s)", goal_cases)
  case 1
  show ?case by simp
next
  case (2 bibliography c cs st)
  show ?case by simp
next
  case (3 bibliography c cs st x2 ref rest out st')
  then have m: "match_marker (c # cs) = Some (ref, rest)"
    by simp
  then obtain r where s: "c # cs = CHR ''['' # CHR ''['' # r"
    by (auto simp: match_marker_def split: list.splits if_splits)
  with m have "dropWhile is_key_char r = CHR '']'' # CHR '']'' # rest"
    by (auto simp: match_marker_def split: list.splits if_splits)
  then have "length rest < length (dropWhile is_key_char r)"
    by simp
  also have "\<dots> \<le> length r"
    by (rule length_dropWhile_le)
  finally show ?case
    using s by simp
qed

declare expand.simps [simp del]

record ref_entry =
  dt_id :: string
  dt_text :: string
  dd_innerHTML :: "string property"

definition references_section :: "refs \<Rightarrow> ref_entry list option" where
  \<comment> \<open>the section appended to \<open>main\<close>, if any: one \<open>dt\<close> and one \<open>dd\<close> for each key\<close>
  "references_section refs =
     (if length (map fst refs) = 0 then None
      else Some (map (\<lambda>r. \<lparr>dt_id = ''ref-'' @ r, dt_text = ''['' @ r @ '']'',
                            dd_innerHTML = (case map_of refs r of Some v \<Rightarrow> v | None \<Rightarrow> Undefined)\<rparr>)
                  (sort (map fst refs))))"

section \<open>The build\<close>

text \<open>
  What \<open>build\<close> writes for one document: the elements after the resolver, the content of
  \<open>main\<close> after the expansion of the markers, and the references section.  The
  serialisation of \<open>main\<close> that the expansion reads is the parameter \<open>innerHTML\<close>.
\<close>

record published =
  pub_elements :: document
  pub_html :: string
  pub_references :: "ref_entry list option"

definition process_spec ::
  "(document \<Rightarrow> string) \<Rightarrow> (string \<rightharpoonup> string) \<Rightarrow> string list \<Rightarrow> spec
    \<Rightarrow> (published \<times> string list) option" where
  "process_spec innerHTML bibliography errs s =
     (case resolver (elements s)
             (if getElementById (elements s) ''abstract'' then errs
              else errs @ [''Missing abstract in '' @ doc_title s]) of
        None \<Rightarrow> None
      | Some (doc, errs1) \<Rightarrow>
          (case expand bibliography (innerHTML doc) ([], errs1) of
             (html, refs, errs2) \<Rightarrow>
               Some (\<lparr>pub_elements = doc, pub_html = html,
                      pub_references = references_section refs\<rparr>, errs2)))"

fun process_specs ::
  "(document \<Rightarrow> string) \<Rightarrow> (string \<rightharpoonup> string) \<Rightarrow> string list \<Rightarrow> (string \<times> spec) list
    \<Rightarrow> ((string \<times> published) list \<times> string list) option" where
  "process_specs innerHTML bibliography errs [] = Some ([], errs)"
| "process_specs innerHTML bibliography errs ((shortname, s) # rest) =
     (case process_spec innerHTML bibliography errs s of
        None \<Rightarrow> None
      | Some (p, errs1) \<Rightarrow>
          (case process_specs innerHTML bibliography errs1 rest of
             None \<Rightarrow> None
           | Some (ps, errs2) \<Rightarrow> Some ((shortname, p) # ps, errs2)))"

text \<open>
  \<open>specs\<close> is the list of the properties of the object \<open>specs\<close> in the order of
  \<open>Object.keys\<close>.  The result is \<open>None\<close> if the build does not return, an error if it
  throws, and otherwise the published documents with the error log.
\<close>

definition build ::
  "(string \<rightharpoonup> person) \<Rightarrow> (string \<rightharpoonup> string) \<Rightarrow> (nat \<Rightarrow> instant) \<Rightarrow> (document \<Rightarrow> string)
    \<Rightarrow> (string \<times> spec) list \<Rightarrow> (error + (string \<times> published) list \<times> string list) option" where
  "build people bibliography clock innerHTML specs =
     (case merge_self_citations people clock 0 specs bibliography of
        Inl e \<Rightarrow> Some (Inl e)
      | Inr closed \<Rightarrow> map_option Inr (process_specs innerHTML closed [] specs))"

section \<open>The documents of the directory\<close>

text \<open>
  \<open>build\<close> finds its documents in the listing of the base directory: the entries whose
  name ends in \<open>.src.html\<close>.  The short name of a document is its file name without that
  ending (the name of a directory entry is its own \<open>basename\<close>).
\<close>

definition is_src :: "string \<Rightarrow> bool" where
  \<comment> \<open>\<open>/\.src\.html$/.test(f)\<close>\<close>
  "is_src f = (drop (length f - 9) f = ''.src.html'')"

definition shortname :: "string \<Rightarrow> string" where
  \<comment> \<open>\<open>basename(s).replace(/\.src\.html$/, '')\<close>, on the name of a directory entry\<close>
  "shortname f = (if is_src f then take (length f - 9) f else f)"

text \<open>
  Each document is stored in the object \<open>specs\<close> by \<open>specs[shortname] = { dom, doc, authors }\<close>.
  The object is held as the list of its own properties in the order of their creation.  An
  assignment to the key \<open>__proto__\<close> goes to the setter inherited from \<open>Object.prototype\<close>
  and creates no property.
\<close>

definition object_set :: "(string \<times> 'a) list \<Rightarrow> string \<Rightarrow> 'a \<Rightarrow> (string \<times> 'a) list" where
  "object_set obj k v =
     (if k = ''__proto__'' \<and> map_of obj k = None then obj else AList.update k v obj)"

text \<open>
  \<open>Object.keys\<close> lists the keys that are array indices first, in ascending order, then the
  other keys in the order of their creation.  A key is an array index when it is the decimal
  numeral of a number below \<open>2\<^sup>3\<^sup>2 - 1\<close>.
\<close>

definition digit_of :: "char \<Rightarrow> nat" where
  "digit_of c =
     (case map_of (zip ''0123456789'' [0, 1, 2, 3, 4, 5, 6, 7, 8, 9]) c of
        Some d \<Rightarrow> d
      | None \<Rightarrow> 0)"

definition read_nat :: "string \<Rightarrow> nat" where
  "read_nat s = foldl (\<lambda>n c. 10 * n + digit_of c) 0 s"

definition is_array_index :: "string \<Rightarrow> bool" where
  "is_array_index k = (show_nat (read_nat k) = k \<and> read_nat k < 4294967295)"

definition object_entries :: "(string \<times> 'a) list \<Rightarrow> (string \<times> 'a) list" where
  "object_entries obj =
     sort_key (\<lambda>(k, v). read_nat k) (filter (\<lambda>(k, v). is_array_index k) obj)
       @ filter (\<lambda>(k, v). \<not> is_array_index k) obj"

text \<open>
  The documents that the two loops of \<open>build\<close> go through, from the listing of the
  directory (the file names with the parsed documents, in the order of \<open>readdir\<close>), and the
  build of a directory.
\<close>

definition load_specs :: "(string \<times> spec) list \<Rightarrow> (string \<times> spec) list" where
  "load_specs dir =
     object_entries
       (fold (\<lambda>(f, s) specs. object_set specs (shortname f) s) (filter (\<lambda>(f, s). is_src f) dir) [])"

definition build_directory ::
  "(string \<rightharpoonup> person) \<Rightarrow> (string \<rightharpoonup> string) \<Rightarrow> (nat \<Rightarrow> instant) \<Rightarrow> (document \<Rightarrow> string)
    \<Rightarrow> (string \<times> spec) list \<Rightarrow> (error + (string \<times> published) list \<times> string list) option" where
  "build_directory people bibliography clock innerHTML dir =
     build people bibliography clock innerHTML (load_specs dir)"

section \<open>The wording of the specification\<close>

text \<open>
  The escaping as the specification words it: each ampersand, less-than sign and double
  quote of the field becomes its entity, every other character stays.
\<close>

definition escaped_once :: "string \<Rightarrow> string" where
  "escaped_once s =
     concat (map (\<lambda>c. if c = CHR ''&'' then ''&amp;''
                       else if c = CHR ''<'' then ''&lt;''
                       else if c = CHR 0x22 then ''&quot;'' else [c]) s)"

text \<open>
  The derivation of a slug as the specification words it: white space is normalized (runs
  collapsed to single spaces, then the ends trimmed), an empty result is replaced by the
  placeholder, the text is put in lower case, every character that is not a word character
  becomes a hyphen, repeated hyphens are collapsed, the hyphens at both ends are trimmed,
  and the namespace token is put in front, joined by a hyphen.
\<close>

fun collapse_spaces :: "string \<Rightarrow> string" where
  "collapse_spaces (a # b # cs) =
     (if is_space a \<and> is_space b then collapse_spaces (b # cs)
      else (if is_space a then CHR '' '' else a) # collapse_spaces (b # cs))"
| "collapse_spaces [a] = [if is_space a then CHR '' '' else a]"
| "collapse_spaces [] = []"

definition trim_hyphens :: "string \<Rightarrow> string" where
  "trim_hyphens s = drop_trailing (\<lambda>c. c = CHR ''-'') (dropWhile (\<lambda>c. c = CHR ''-'') s)"

definition spec_slug_text :: "string \<Rightarrow> string" where
  "spec_slug_text t =
     trim_hyphens (collapse_hyphens
       (map (\<lambda>c. if is_word c then c else CHR ''-'')
         (toLowerCase
           (let n = trim_spaces (collapse_spaces t) in if n = [] then ''empty'' else n))))"

definition spec_slug :: "string \<Rightarrow> string" where
  "spec_slug t = ''dfn'' @ ''-'' @ spec_slug_text t"

text \<open>
  Two predicates to speak of the definition sites of one raw slug.  An element is such a
  site when it is a \<open>dfn\<close> without an \<open>id\<close> whose text gives that slug.  An element
  clashes with the slug when it carries, or as a \<open>dfn\<close> without an \<open>id\<close> can be given, an
  identifier that is the slug bare or suffixed.
\<close>

definition raw_slug_site :: "string \<Rightarrow> element \<Rightarrow> bool" where
  "raw_slug_site txt e = (tag e = ''dfn'' \<and> attr_id e = None \<and> slug_text (textContent e) = txt)"

definition clashes :: "string \<Rightarrow> element \<Rightarrow> bool" where
  "clashes txt e =
     (case attr_id e of
        Some i \<Rightarrow> \<exists>k. i = idify ''dfn'' txt k
      | None \<Rightarrow> tag e = ''dfn'' \<and> (\<exists>j k. idify ''dfn'' (slug_text (textContent e)) j = idify ''dfn'' txt k))"

section \<open>A small corpus\<close>

text \<open>
  Two documents, \<open>alpha\<close> listed before \<open>beta\<close>; \<open>alpha\<close> cites \<open>beta\<close> and a key that
  nobody defines.  The clock passes midnight between the first reading and the second.
\<close>

definition example_people :: "string \<rightharpoonup> person" where
  "example_people =
     [''robin'' \<mapsto> \<lparr>name = ''Robin <R&D>'', email = ''r@x'', site = ''https://x''\<rparr>,
      ''juan'' \<mapsto> \<lparr>name = ''Juan'', email = ''j@y'', site = ''https://y''\<rparr>]"

definition example_clock :: "nat \<Rightarrow> instant" where
  "example_clock n =
     (if n = 0
      then \<lparr>year = 2024, month = 12, day = 31, hours = 23, minutes = 59, seconds = 59, millis = 999\<rparr>
      else \<lparr>year = 2025, month = 1, day = 1, hours = 0, minutes = 0, seconds = 0, millis = 0\<rparr>)"

definition example_alpha :: spec where
  "example_alpha =
     \<lparr>doc_title = ''Alpha'', authors = [''robin''],
      elements =
        [\<lparr>tag = ''p'', attr_id = Some ''abstract'', attr_href = None, className = [],
          textContent = ''See [[beta]] and [[rfc9999]].''\<rparr>,
         \<lparr>tag = ''dfn'', attr_id = None, attr_href = None, className = [], textContent = ''Node''\<rparr>,
         \<lparr>tag = ''dfn'', attr_id = None, attr_href = None, className = [], textContent = ''Node''\<rparr>,
         \<lparr>tag = ''dfn'', attr_id = Some ''hash'', attr_href = None, className = [],
          textContent = ''Hash Chain''\<rparr>,
         \<lparr>tag = ''a'', attr_id = None, attr_href = None, className = [], textContent = ''node''\<rparr>]\<rparr>"

definition example_beta :: spec where
  "example_beta =
     \<lparr>doc_title = ''Beta'', authors = [''robin'', ''juan''],
      elements =
        [\<lparr>tag = ''p'', attr_id = Some ''abstract'', attr_href = None, className = [],
          textContent = ''Nothing cited.''\<rparr>]\<rparr>"

definition example_specs :: "(string \<times> spec) list" where
  "example_specs = [(''alpha'', example_alpha), (''beta'', example_beta)]"

definition example_closed :: "string \<rightharpoonup> string" where
  \<comment> \<open>the bibliography of the corpus once both self-citations are merged\<close>
  "example_closed =
     [''alpha'' \<mapsto> htmlifyReference \<lparr>author = Some ''Robin <R&D>'', title = Some ''Alpha'',
        date = Some ''2024-12-31'', url = Some ''https://dasl.ing/alpha.html''\<rparr>,
      ''beta'' \<mapsto> htmlifyReference \<lparr>author = Some ''Robin <R&D> & Juan'', title = Some ''Beta'',
        date = Some ''2025-01-01'', url = Some ''https://dasl.ing/beta.html''\<rparr>]"

definition example_innerHTML :: "document \<Rightarrow> string" where
  \<comment> \<open>a serialisation for the examples: the text of the first element\<close>
  "example_innerHTML doc = (case doc of [] \<Rightarrow> [] | e # es \<Rightarrow> textContent e)"

text \<open>What the build of the corpus publishes, and its error log.\<close>

definition example_published :: "(string \<times> published) list" where
  "example_published =
     [(''alpha'',
       \<lparr>pub_elements =
          [\<lparr>tag = ''p'', attr_id = Some ''abstract'', attr_href = None, className = [],
            textContent = ''See [[beta]] and [[rfc9999]].''\<rparr>,
           \<lparr>tag = ''dfn'', attr_id = Some ''dfn-node'', attr_href = None, className = [],
            textContent = ''Node''\<rparr>,
           \<lparr>tag = ''dfn'', attr_id = Some ''dfn-node-1'', attr_href = None, className = [],
            textContent = ''Node''\<rparr>,
           \<lparr>tag = ''dfn'', attr_id = Some ''hash'', attr_href = None, className = [],
            textContent = ''Hash Chain''\<rparr>,
           \<lparr>tag = ''a'', attr_id = None, attr_href = Some ''#dfn-node'', className = ''dfn-ref'',
            textContent = ''node''\<rparr>],
        pub_html = ''See '' @ ref_link ''beta'' @ '' and [[rfc9999]].'',
        pub_references =
          Some [\<lparr>dt_id = ''ref-beta'', dt_text = ''[beta]'',
                 dd_innerHTML =
                   Own (htmlifyReference
                          \<lparr>author = Some ''Robin <R&D> & Juan'', title = Some ''Beta'',
                           date = Some ''2025-01-01'', url = Some ''https://dasl.ing/beta.html''\<rparr>)\<rparr>]\<rparr>),
      (''beta'',
       \<lparr>pub_elements = elements example_beta, pub_html = ''Nothing cited.'',
        pub_references = None\<rparr>)]"

definition example_errors :: "string list" where
  "example_errors = [no_entry ''rfc9999'']"

text \<open>
  Three more documents.  \<open>gamma\<close>
  cites \<open>constructor\<close> and a key that nobody defines, \<open>delta\<close> cites \<open>__proto__\<close>, and
  \<open>epsilon\<close> cites \<open>valueOf\<close> and itself: three names that every plain object inherits.
\<close>

definition example_gamma :: spec where
  "example_gamma =
     \<lparr>doc_title = ''Gamma'', authors = [''juan''],
      elements =
        [\<lparr>tag = ''p'', attr_id = Some ''abstract'', attr_href = None, className = [],
          textContent = ''See [[constructor]] and [[rfc9999]].''\<rparr>]\<rparr>"

definition example_delta :: spec where
  "example_delta =
     \<lparr>doc_title = ''Delta'', authors = [''juan''],
      elements =
        [\<lparr>tag = ''p'', attr_id = Some ''abstract'', attr_href = None, className = [],
          textContent = ''See [[__proto__]].''\<rparr>]\<rparr>"

definition example_epsilon :: spec where
  "example_epsilon =
     \<lparr>doc_title = ''Epsilon'', authors = [''juan''],
      elements =
        [\<lparr>tag = ''p'', attr_id = Some ''abstract'', attr_href = None, className = [],
          textContent = ''See [[valueOf]] and [[epsilon]].''\<rparr>]\<rparr>"

text \<open>
  A directory of four entries: \<open>zeta\<close>, which cites \<open>beta\<close> and \<open>__proto__\<close>, a document
  whose file is named \<open>__proto__.src.html\<close>, a file that is no source document, and
  \<open>beta\<close>, listed last.
\<close>

definition example_zeta :: spec where
  "example_zeta =
     \<lparr>doc_title = ''Zeta'', authors = [''juan''],
      elements =
        [\<lparr>tag = ''p'', attr_id = Some ''abstract'', attr_href = None, className = [],
          textContent = ''See [[beta]] and [[__proto__]].''\<rparr>]\<rparr>"

definition example_proto :: spec where
  "example_proto =
     \<lparr>doc_title = ''Proto'', authors = [''robin''],
      elements =
        [\<lparr>tag = ''p'', attr_id = Some ''abstract'', attr_href = None, className = [],
          textContent = ''Nothing cited.''\<rparr>]\<rparr>"

definition example_directory :: "(string \<times> spec) list" where
  "example_directory =
     [(''zeta.src.html'', example_zeta), (''__proto__.src.html'', example_proto),
      (''index.html'', example_alpha), (''beta.src.html'', example_beta)]"

section \<open>The author field\<close>

lemma join_snoc: "xs \<noteq> [] \<Longrightarrow> join sep (xs @ [y]) = join sep xs @ sep @ y"
  by (induction sep xs rule: join.induct) auto

lemma mark_last_snoc:
  "mark_last (map Some (xs @ [y])) = map Some xs @ [Some (''& '' @ y)]"
  by (induction xs rule: induct_list012) (auto simp: template_def)

lemma map_or_empty_Some: "map (or_empty \<circ> Some) xs = xs"
  by (induction xs) (auto simp: or_empty_def)

text \<open>
  C6, as stated, fails: three names A, B, C do not yield \<open>A, B & C\<close>.  The ampersand is
  put in front of the last name before the names are joined with a comma and a space, so
  a comma stands before it.
\<close>

theorem joinList_three_counterexample:
  "joinList [Some ''A'', Some ''B'', Some ''C''] = Some ''A, B, & C'' \<and>
   joinList [Some ''A'', Some ''B'', Some ''C''] \<noteq> Some ''A, B & C''"
  by (simp add: or_empty_def template_def)

text \<open>
  C6, amended: a single display name is the author field unchanged; two names are joined
  with an ampersand between spaces; three or more names are joined with a comma and a
  space, and the last name is preceded by a comma, a space, an ampersand and a space
  (A, B, C yield \<open>A, B, & C\<close>).
\<close>

theorem joinList_display_names:
  "joinList [Some a] = Some a \<and>
   joinList [Some a, Some b] = Some (a @ '' & '' @ b) \<and>
   (3 \<le> length names \<longrightarrow>
      joinList (map Some names) = Some (join '', '' (butlast names) @ '', & '' @ last names))"
proof (intro conjI impI)
  show "joinList [Some a] = Some a" by simp
  show "joinList [Some a, Some b] = Some (a @ '' & '' @ b)" by (simp add: or_empty_def)
next
  assume len: "3 \<le> length names"
  then obtain xs y where names: "names = xs @ [y]"
    by (cases names rule: rev_cases) auto
  with len have xs: "2 \<le> length xs" by simp
  then obtain x1 x2 xr where xs': "xs = x1 # x2 # xr"
    by (cases xs; cases "tl xs") auto
  have "joinList (map Some names) = Some (join '', '' (map or_empty (mark_last (map Some names))))"
    unfolding names xs' by (cases xr) simp_all
  also have "map or_empty (mark_last (map Some names)) = xs @ [''& '' @ y]"
    unfolding names mark_last_snoc by (simp add: map_or_empty_Some or_empty_def)
  also have "join '', '' (xs @ [''& '' @ y]) = join '', '' xs @ '', '' @ (''& '' @ y)"
    using xs' by (intro join_snoc) simp
  finally show "joinList (map Some names) = Some (join '', '' (butlast names) @ '', & '' @ last names)"
    by (simp add: names)
qed

theorem joinList_display_names_witness:
  "3 \<le> length [''Ada'', ''Bo'', ''Cy'', ''Di''] \<and>
   joinList (map Some [''Ada'', ''Bo'', ''Cy'', ''Di'']) = Some ''Ada, Bo, Cy, & Di''"
  using joinList_display_names [of "''Ada''" "''Bo''" "[''Ada'', ''Bo'', ''Cy'', ''Di'']"]
  by simp

section \<open>Escaping and the stored fragment\<close>

lemma replace_char_append: "replace_char c r (a @ b) = replace_char c r a @ replace_char c r b"
  by (simp add: replace_char_def)

lemma esc_escaped_once: "esc str = escaped_once (or_empty str)"
proof -
  have "replace_char (CHR 0x22) ''&quot;''
          (replace_char CHR ''<'' ''&lt;'' (replace_char CHR ''&'' ''&amp;'' s)) = escaped_once s" for s
  proof (induction s)
    case Nil
    show ?case by (simp add: replace_char_def escaped_once_def)
  next
    case (Cons c s)
    have "replace_char CHR ''&'' ''&amp;'' (c # s) = replace_char CHR ''&'' ''&amp;'' [c] @ replace_char CHR ''&'' ''&amp;'' s"
      by (simp add: replace_char_def)
    then show ?case
      using Cons by (simp add: replace_char_append) (simp add: replace_char_def escaped_once_def)
  qed
  then show ?thesis by (simp add: esc_def)
qed


lemma js_set_proto_status:
  "(js_set b k v ''__proto__'' = None) = (b ''__proto__'' = None)"
  by (auto simp: js_set_def)

lemma js_set_cases:
  "js_set b k v = (if k = ''__proto__'' \<and> b ''__proto__'' = None then b else b(k \<mapsto> v))"
  by (auto simp: js_set_def)

lemma merge_self_citations_Cons:
  "author_names people (authors s) = Inr names \<Longrightarrow>
   merge_self_citations people clock n ((k, s) # specs) b =
   merge_self_citations people clock (Suc n) specs
     (js_set b k (htmlifyReference \<lparr>author = joinList names, title = Some (doc_title s),
        date = Some (today (clock n)), url = Some (''https://dasl.ing/'' @ k @ ''.html'')\<rparr>))"
  by simp

lemma merge_self_citations_add:
  "merge_self_citations people clock n specs b = Inr c \<Longrightarrow>
   \<exists>m. c = b ++ m \<and> (c ''__proto__'' = None) = (b ''__proto__'' = None) \<and>
       (\<forall>b'. (b' ''__proto__'' = None) = (b ''__proto__'' = None) \<longrightarrow>
              merge_self_citations people clock n specs b' = Inr (b' ++ m))"
proof (induction specs arbitrary: n b c)
  case Nil
  then have "c = b" by simp
  then show ?case by (intro exI [of _ Map.empty]) simp
next
  case (Cons p specs)
  obtain k s where p: "p = (k, s)" by (cases p)
  from Cons.prems p obtain names where names: "author_names people (authors s) = Inr names"
    by (cases "author_names people (authors s)") simp_all
  define v where "v = htmlifyReference \<lparr>author = joinList names, title = Some (doc_title s),
       date = Some (today (clock n)), url = Some (''https://dasl.ing/'' @ k @ ''.html'')\<rparr>"
  have step: "merge_self_citations people clock n (p # specs) b' =
      merge_self_citations people clock (Suc n) specs (js_set b' k v)" for b'
    unfolding p v_def by (rule merge_self_citations_Cons [OF names])
  from Cons.prems have run: "merge_self_citations people clock (Suc n) specs (js_set b k v) = Inr c"
    by (simp only: step)
  from Cons.IH [OF run] obtain m where mm: "c = js_set b k v ++ m \<and>
      (c ''__proto__'' = None) = (js_set b k v ''__proto__'' = None) \<and>
      (\<forall>b'. (b' ''__proto__'' = None) = (js_set b k v ''__proto__'' = None) \<longrightarrow>
              merge_self_citations people clock (Suc n) specs b' = Inr (b' ++ m))" ..
  note m = mm [THEN conjunct1] mm [THEN conjunct2, THEN conjunct1]
    mm [THEN conjunct2, THEN conjunct2, rule_format]
  show ?case
  proof (cases "k = ''__proto__'' \<and> b ''__proto__'' = None")
    case True
    then have same: "js_set b k v = b" by (simp add: js_set_def)
    have all: "\<forall>b'. (b' ''__proto__'' = None) = (b ''__proto__'' = None) \<longrightarrow>
              merge_self_citations people clock n (p # specs) b' = Inr (b' ++ m)"
    proof (intro allI impI)
      fix b' :: "string \<rightharpoonup> string"
      assume st: "(b' ''__proto__'' = None) = (b ''__proto__'' = None)"
      with True have "js_set b' k v = b'" by (simp add: js_set_def)
      with m(3) [of b'] st same show "merge_self_citations people clock n (p # specs) b' = Inr (b' ++ m)"
        by (simp only: step)
    qed
    have c: "c = b ++ m" and st: "(c ''__proto__'' = None) = (b ''__proto__'' = None)"
      using m(1,2) same by simp_all
    show ?thesis by (intro exI [of _ m] conjI c st all)
  next
    case False
    then have upd: "js_set b k v = b(k \<mapsto> v)" by (auto simp: js_set_def)
    have all: "\<forall>b'. (b' ''__proto__'' = None) = (b ''__proto__'' = None) \<longrightarrow>
              merge_self_citations people clock n (p # specs) b' = Inr (b' ++ ([k \<mapsto> v] ++ m))"
    proof (intro allI impI)
      fix b' :: "string \<rightharpoonup> string"
      assume st: "(b' ''__proto__'' = None) = (b ''__proto__'' = None)"
      with False have upd': "js_set b' k v = b'(k \<mapsto> v)" by (auto simp: js_set_def)
      have "(js_set b' k v ''__proto__'' = None) = (js_set b k v ''__proto__'' = None)"
        using st by (simp add: js_set_proto_status)
      from m(3) [of "js_set b' k v", OF this]
      have "merge_self_citations people clock (Suc n) specs (js_set b' k v) = Inr (js_set b' k v ++ m)" .
      moreover have "b'(k \<mapsto> v) ++ m = b' ++ ([k \<mapsto> v] ++ m)"
        by (simp add: fun_eq_iff map_add_def split: option.splits)
      ultimately show "merge_self_citations people clock n (p # specs) b' = Inr (b' ++ ([k \<mapsto> v] ++ m))"
        by (simp only: step upd')
    qed
    have c: "c = b ++ ([k \<mapsto> v] ++ m)"
      unfolding m(1) upd by (simp add: fun_eq_iff map_add_def split: option.splits)
    have st: "(c ''__proto__'' = None) = (b ''__proto__'' = None)"
      using m(2) by (simp add: js_set_proto_status)
    show ?thesis by (intro exI [of _ "[k \<mapsto> v] ++ m"] conjI c st all)
  qed
qed

lemma replicate_numeral_Cons: "replicate (numeral k) x = x # replicate (pred_numeral k) x"
  by (simp add: numeral_eq_Suc)

lemma example_today:
  "today (example_clock 0) = ''2024-12-31''" "today (example_clock (Suc 0)) = ''2025-01-01''"
  by (simp_all add: today_def example_clock_def toISOString_def pad_def show_nat.simps
      is_line_terminator_def replicate_numeral_Cons)

lemma example_merge:
  "merge_self_citations example_people example_clock 0 example_specs Map.empty = Inr example_closed"
  by (simp add: example_people_def example_specs_def example_alpha_def example_beta_def
      example_closed_def author_name_def js_get_def js_set_def or_empty_def example_today)

text \<open>
  C7: every field of a synthesized entry (author, title, date, URL) is escaped exactly once
  before the fragment is composed: \<open>esc\<close> turns each ampersand, less-than sign and double
  quote of the field into its entity and changes nothing else, and the fragment is made of
  the fields so escaped.  Synthesizing the entries again from the same sources, on the
  bibliography that already holds them, yields the same bibliography: nothing is escaped a
  second time.
\<close>

theorem fields_escaped_once:
  "esc str = escaped_once (or_empty str) \<and>
   htmlifyReference r =
     escaped_once (or_empty (author r)) @ ''. <a href='' @ quote @ escaped_once (or_empty (url r))
       @ quote @ ''><cite>'' @ escaped_once (or_empty (title r)) @ ''</cite></a>. ''
       @ escaped_once (or_empty (date r)) @ ''. URL:&nbsp;<a href='' @ quote
       @ escaped_once (or_empty (url r)) @ quote @ ''>'' @ escaped_once (or_empty (url r)) @ ''</a>'' \<and>
   (merge_self_citations people clock n specs bibliography = Inr closed \<longrightarrow>
      merge_self_citations people clock n specs closed = Inr closed)"
proof (intro conjI impI)
  show "esc str = escaped_once (or_empty str)"
    by (rule esc_escaped_once)
  show "htmlifyReference r =
     escaped_once (or_empty (author r)) @ ''. <a href='' @ quote @ escaped_once (or_empty (url r))
       @ quote @ ''><cite>'' @ escaped_once (or_empty (title r)) @ ''</cite></a>. ''
       @ escaped_once (or_empty (date r)) @ ''. URL:&nbsp;<a href='' @ quote
       @ escaped_once (or_empty (url r)) @ quote @ ''>'' @ escaped_once (or_empty (url r)) @ ''</a>''"
    unfolding htmlifyReference_def esc_escaped_once by (rule refl)
next
  assume run: "merge_self_citations people clock n specs bibliography = Inr closed"
  from merge_self_citations_add [OF run] obtain m where mm: "closed = bibliography ++ m \<and>
      (closed ''__proto__'' = None) = (bibliography ''__proto__'' = None) \<and>
      (\<forall>b'. (b' ''__proto__'' = None) = (bibliography ''__proto__'' = None) \<longrightarrow>
              merge_self_citations people clock n specs b' = Inr (b' ++ m))" ..
  note m = mm [THEN conjunct1] mm [THEN conjunct2, THEN conjunct1]
    mm [THEN conjunct2, THEN conjunct2, rule_format]
  have "closed ++ m = closed"
    unfolding m(1) by (simp add: fun_eq_iff map_add_def split: option.splits)
  with m(3) [of closed, OF m(2)] show "merge_self_citations people clock n specs closed = Inr closed"
    by simp
qed

theorem fields_escaped_once_witness:
  "merge_self_citations example_people example_clock 0 example_specs Map.empty = Inr example_closed \<and>
   merge_self_citations example_people example_clock 0 example_specs example_closed = Inr example_closed"
proof -
  have h: "merge_self_citations example_people example_clock 0 example_specs Map.empty = Inr example_closed"
    by (rule example_merge)
  from fields_escaped_once [THEN conjunct2, THEN conjunct2, rule_format, OF h] h
  show ?thesis by (rule conjI [rotated])
qed

section \<open>The date field\<close>

lemma show_nat_digits: "set (show_nat n) \<subseteq> set ''0123456789''"
proof (induction n rule: show_nat.induct)
  case (1 n)
  have d: "''0123456789'' ! k \<in> set ''0123456789''" if "k < 10" for k
    using that by (intro nth_mem) simp
  show ?case
  proof (cases "n < 10")
    case True
    then show ?thesis using d [of n] by (subst show_nat.simps) simp
  next
    case False
    have "n mod 10 < 10" by simp
    from d [OF this] 1 False show ?thesis by (subst show_nat.simps) simp
  qed
qed

lemma show_nat_length: "0 < k \<Longrightarrow> n < 10 ^ k \<Longrightarrow> length (show_nat n) \<le> k"
proof (induction k arbitrary: n)
  case 0
  then show ?case by simp
next
  case (Suc k)
  show ?case
  proof (cases "n < 10")
    case True
    then show ?thesis by (subst show_nat.simps) simp
  next
    case False
    with Suc.prems have k: "0 < k" by (cases k) auto
    from Suc.prems have "n div 10 < 10 ^ k"
      by (simp add: less_mult_imp_div_less mult.commute)
    from Suc.IH [OF k this] False show ?thesis by (subst show_nat.simps) simp
  qed
qed

lemma pad_digits: "set (pad w n) \<subseteq> set ''0123456789''"
  using show_nat_digits [of n] by (auto simp: pad_def)

lemma pad_length: "0 < w \<Longrightarrow> n < 10 ^ w \<Longrightarrow> length (pad w n) = w"
  using show_nat_length [of w n] by (simp add: pad_def)

lemma show_nat_not_Nil: "show_nat n \<noteq> []"
  by (subst show_nat.simps) simp

lemma pad_not_Nil: "pad w n \<noteq> []"
  by (simp add: pad_def show_nat_not_Nil)

lemma strip_time_at_T:
  "CHR ''T'' \<notin> set a \<Longrightarrow> b \<noteq> [] \<Longrightarrow> \<forall>x\<in>set b. \<not> is_line_terminator x \<Longrightarrow>
   strip_time (a @ CHR ''T'' # b) = a"
proof (induction a)
  case Nil
  then have "dropWhile (\<lambda>x. \<not> is_line_terminator x) b = []" by simp
  with Nil show ?case by (cases b) auto
next
  case (Cons c a)
  then show ?case by auto
qed

lemma today_date:
  "today now =
     (if year now \<le> 9999 then pad 4 (year now) else ''+'' @ pad 6 (year now)) @ ''-''
       @ pad 2 (month now) @ ''-'' @ pad 2 (day now)"
proof -
  define a where "a = (if year now \<le> 9999 then pad 4 (year now) else ''+'' @ pad 6 (year now)) @ ''-''
       @ pad 2 (month now) @ ''-'' @ pad 2 (day now)"
  define b where "b = pad 2 (hours now) @ '':'' @ pad 2 (minutes now) @ '':''
       @ pad 2 (seconds now) @ ''.'' @ pad 3 (millis now) @ ''Z''"
  have iso: "toISOString now = a @ CHR ''T'' # b"
    by (simp add: toISOString_def a_def b_def)
  have "CHR ''T'' \<notin> set ''0123456789''" by simp
  then have noT: "CHR ''T'' \<notin> set (pad w n)" for w n
    using pad_digits [of w n] by blast
  have "\<not> is_line_terminator x" if "x \<in> set ''0123456789''" for x
    using that by (auto simp: is_line_terminator_def)
  then have nolt: "\<forall>x\<in>set (pad w n). \<not> is_line_terminator x" for w n
    using pad_digits [of w n] by blast
  have 1: "CHR ''T'' \<notin> set a"
    by (simp add: a_def noT)
  have 2: "b \<noteq> []" by (simp add: b_def)
  have 3: "\<forall>x\<in>set b. \<not> is_line_terminator x"
    using nolt by (auto simp: b_def is_line_terminator_def)
  show ?thesis
    unfolding today_def iso a_def [symmetric] by (rule strip_time_at_T [OF 1 2 3])
qed


lemma merge_self_citations_other:
  "merge_self_citations people clock n specs b = Inr c \<Longrightarrow> k \<notin> set (map fst specs) \<Longrightarrow> c k = b k"
proof (induction specs arbitrary: n b)
  case Nil
  then show ?case by simp
next
  case (Cons p specs)
  obtain k' s where p: "p = (k', s)" by (cases p)
  from Cons.prems(1) obtain names where names: "author_names people (authors s) = Inr names"
    unfolding p by (cases "author_names people (authors s)") simp_all
  from Cons.prems(1) have run: "merge_self_citations people clock (Suc n) specs
      (js_set b k' (htmlifyReference \<lparr>author = joinList names, title = Some (doc_title s),
        date = Some (today (clock n)), url = Some (''https://dasl.ing/'' @ k' @ ''.html'')\<rparr>)) = Inr c"
    unfolding p by (simp only: merge_self_citations_Cons [OF names])
  from Cons.prems(2) have "k \<noteq> k'" "k \<notin> set (map fst specs)"
    by (simp_all add: p)
  with Cons.IH [OF run] show ?case by (simp add: js_set_def)
qed

lemma merge_self_citations_entry:
  "merge_self_citations people clock n specs b = Inr c \<Longrightarrow> distinct (map fst specs) \<Longrightarrow>
   ''__proto__'' \<notin> set (map fst specs) \<Longrightarrow> i < length specs \<Longrightarrow>
   \<exists>names. author_names people (authors (snd (specs ! i))) = Inr names \<and>
     c (fst (specs ! i)) =
       Some (htmlifyReference
               \<lparr>author = joinList names, title = Some (doc_title (snd (specs ! i))),
                date = Some (today (clock (n + i))),
                url = Some (''https://dasl.ing/'' @ fst (specs ! i) @ ''.html'')\<rparr>)"
proof (induction specs arbitrary: n b i)
  case Nil
  then show ?case by simp
next
  case (Cons p specs)
  obtain k s where p: "p = (k, s)" by (cases p)
  from Cons.prems(1) obtain names where names: "author_names people (authors s) = Inr names"
    unfolding p by (cases "author_names people (authors s)") simp_all
  define v where "v = htmlifyReference \<lparr>author = joinList names, title = Some (doc_title s),
        date = Some (today (clock n)), url = Some (''https://dasl.ing/'' @ k @ ''.html'')\<rparr>"
  from Cons.prems(1) have run: "merge_self_citations people clock (Suc n) specs (js_set b k v) = Inr c"
    unfolding p v_def by (simp only: merge_self_citations_Cons [OF names])
  from Cons.prems(2,3) have k: "k \<notin> set (map fst specs)" "k \<noteq> ''__proto__''"
    and rest: "distinct (map fst specs)" "''__proto__'' \<notin> set (map fst specs)"
    by (auto simp: p)
  show ?case
  proof (cases i)
    case 0
    have "c k = js_set b k v k"
      by (rule merge_self_citations_other [OF run k(1)])
    also have "\<dots> = Some v"
      using k(2) by (simp add: js_set_def)
    finally show ?thesis
      using names by (simp add: 0 p v_def)
  next
    case (Suc j)
    with Cons.prems(4) have j: "j < length specs" by simp
    from Cons.IH [OF run rest j] show ?thesis
      by (simp add: Suc)
  qed
qed

text \<open>
  C8, as stated, fails: the date is not one timestamp of the build.  \<open>today\<close> reads the
  clock once for every document, inside the loop that synthesizes the entries, so two
  documents of one run get different dates when midnight (UTC) passes between the two
  readings.
\<close>

theorem date_field_counterexample:
  "merge_self_citations example_people example_clock 0 example_specs Map.empty = Inr example_closed \<and>
   example_closed ''alpha'' =
     Some (htmlifyReference \<lparr>author = Some ''Robin <R&D>'', title = Some ''Alpha'',
             date = Some ''2024-12-31'', url = Some ''https://dasl.ing/alpha.html''\<rparr>) \<and>
   example_closed ''beta'' =
     Some (htmlifyReference \<lparr>author = Some ''Robin <R&D> & Juan'', title = Some ''Beta'',
             date = Some ''2025-01-01'', url = Some ''https://dasl.ing/beta.html''\<rparr>) \<and>
   today (example_clock 0) \<noteq> today (example_clock 1)"
  using example_merge by (simp add: example_closed_def example_today)

text \<open>
  C8, amended: the date field of the entry of a document is the UTC calendar date of the
  clock reading taken when that entry is synthesized, one reading for each document in
  the order of the documents; for a year up to 9999 it has the form YYYY-MM-DD (four, two
  and two digits, joined by hyphens).  The fields of two documents of one run are identical
  whenever their two readings fall on the same UTC day.
\<close>

theorem date_field_of_entry:
  assumes "merge_self_citations people clock 0 specs bibliography = Inr closed"
    and "distinct (map fst specs)" and "''__proto__'' \<notin> set (map fst specs)"
    and "i < length specs" and "j < length specs"
  shows "(\<exists>names. author_names people (authors (snd (specs ! i))) = Inr names \<and>
           closed (fst (specs ! i)) =
             Some (htmlifyReference
                     \<lparr>author = joinList names, title = Some (doc_title (snd (specs ! i))),
                      date = Some (today (clock i)),
                      url = Some (''https://dasl.ing/'' @ fst (specs ! i) @ ''.html'')\<rparr>)) \<and>
         (year (clock i) \<le> 9999 \<and> month (clock i) \<le> 12 \<and> day (clock i) \<le> 31 \<longrightarrow>
            today (clock i) =
              pad 4 (year (clock i)) @ ''-'' @ pad 2 (month (clock i)) @ ''-'' @ pad 2 (day (clock i)) \<and>
            length (pad 4 (year (clock i))) = 4 \<and> length (pad 2 (month (clock i))) = 2 \<and>
            length (pad 2 (day (clock i))) = 2 \<and>
            set (today (clock i)) \<subseteq> set ''0123456789-'') \<and>
         (year (clock i) = year (clock j) \<and> month (clock i) = month (clock j) \<and>
          day (clock i) = day (clock j) \<longrightarrow> today (clock i) = today (clock j))"
proof (intro conjI impI)
  show "\<exists>names. author_names people (authors (snd (specs ! i))) = Inr names \<and>
           closed (fst (specs ! i)) =
             Some (htmlifyReference
                     \<lparr>author = joinList names, title = Some (doc_title (snd (specs ! i))),
                      date = Some (today (clock i)),
                      url = Some (''https://dasl.ing/'' @ fst (specs ! i) @ ''.html'')\<rparr>)"
    using merge_self_citations_entry [OF assms(1-4)] by simp
next
  assume b: "year (clock i) \<le> 9999 \<and> month (clock i) \<le> 12 \<and> day (clock i) \<le> 31"
  then show "today (clock i) =
      pad 4 (year (clock i)) @ ''-'' @ pad 2 (month (clock i)) @ ''-'' @ pad 2 (day (clock i))"
    by (simp add: today_date)
  from b show "length (pad 4 (year (clock i))) = 4" by (intro pad_length) simp_all
  from b show "length (pad 2 (month (clock i))) = 2" by (intro pad_length) simp_all
  from b show "length (pad 2 (day (clock i))) = 2" by (intro pad_length) simp_all
  have "''0123456789-'' = ''0123456789'' @ ''-''"
    by simp
  then have sub: "set ''0123456789'' \<subseteq> set ''0123456789-''"
    by (simp only: set_append Un_upper1)
  have p: "set (pad w n) \<subseteq> set ''0123456789-''" for w n
    using pad_digits [of w n] sub by (rule subset_trans)
  have h: "CHR ''-'' \<in> set ''0123456789-''"
    by simp
  have "set (pad 4 (year (clock i)) @ ''-'' @ pad 2 (month (clock i)) @ ''-'' @ pad 2 (day (clock i)))
      \<subseteq> set ''0123456789-''"
    unfolding set_append using p h by (intro Un_least) simp_all
  with b show "set (today (clock i)) \<subseteq> set ''0123456789-''"
    by (simp only: today_date if_True)
next
  assume "year (clock i) = year (clock j) \<and> month (clock i) = month (clock j) \<and>
          day (clock i) = day (clock j)"
  then show "today (clock i) = today (clock j)"
    by (simp add: today_date)
qed

theorem date_field_of_entry_witness:
  "merge_self_citations example_people example_clock 0 example_specs Map.empty = Inr example_closed \<and>
   distinct (map fst example_specs) \<and> ''__proto__'' \<notin> set (map fst example_specs) \<and>
   1 < length example_specs \<and>
   example_closed ''beta'' =
     Some (htmlifyReference \<lparr>author = Some ''Robin <R&D> & Juan'', title = Some ''Beta'',
             date = Some (today (example_clock 1)), url = Some ''https://dasl.ing/beta.html''\<rparr>) \<and>
   today (example_clock 1) = ''2025-01-01''"
proof -
  have h: "merge_self_citations example_people example_clock 0 example_specs Map.empty = Inr example_closed"
    by (rule example_merge)
  have d: "distinct (map fst example_specs)" "''__proto__'' \<notin> set (map fst example_specs)"
    and l: "1 < length example_specs"
    by (simp_all add: example_specs_def)
  have b: "year (example_clock 1) \<le> 9999 \<and> month (example_clock 1) \<le> 12 \<and> day (example_clock 1) \<le> 31"
    by (simp add: example_clock_def)
  from date_field_of_entry [OF h d l l, THEN conjunct2, THEN conjunct1, rule_format, OF b]
  have "today (example_clock 1) = ''2025-01-01''"
    by (simp add: example_today)
  with h d l show ?thesis
    by (simp add: example_closed_def)
qed

section \<open>The search for a free identifier\<close>

lemma digit_inj: "a < 10 \<Longrightarrow> b < 10 \<Longrightarrow> ''0123456789'' ! a = ''0123456789'' ! b \<Longrightarrow> a = b"
proof -
  assume a: "a < 10" and b: "b < 10" and eq: "''0123456789'' ! a = ''0123456789'' ! b"
  have d: "distinct ''0123456789''" by simp
  from a b have "a < length ''0123456789''" "b < length ''0123456789''" by simp_all
  with d eq show "a = b" by (simp only: nth_eq_iff_index_eq)
qed

lemma show_nat_small: "n < 10 \<Longrightarrow> show_nat n = [''0123456789'' ! n]"
  by (subst show_nat.simps) simp

lemma show_nat_large:
  "\<not> n < 10 \<Longrightarrow> show_nat n = show_nat (n div 10) @ [''0123456789'' ! (n mod 10)]"
  by (subst show_nat.simps) simp

lemma show_nat_inj: "show_nat n = show_nat m \<Longrightarrow> n = m"
proof (induction n arbitrary: m rule: show_nat.induct)
  case (1 n)
  show ?case
  proof (cases "n < 10")
    case n: True
    show ?thesis
    proof (cases "m < 10")
      case True
      with n "1.prems" show ?thesis
        by (simp add: show_nat_small digit_inj)
    next
      case False
      with n "1.prems" show ?thesis
        by (simp add: show_nat_small show_nat_large show_nat_not_Nil show_nat_not_Nil [symmetric])
    qed
  next
    case n: False
    show ?thesis
    proof (cases "m < 10")
      case True
      with n "1.prems" show ?thesis
        by (simp add: show_nat_small show_nat_large show_nat_not_Nil show_nat_not_Nil [symmetric])
    next
      case False
      with n "1.prems" have eq: "show_nat (n div 10) = show_nat (m div 10)"
        and d: "''0123456789'' ! (n mod 10) = ''0123456789'' ! (m mod 10)"
        by (simp_all add: show_nat_large)
      from "1.IH" [OF n eq] have "n div 10 = m div 10" .
      moreover from d have "n mod 10 = m mod 10"
        by (intro digit_inj) simp_all
      ultimately show ?thesis
        by (metis div_mult_mod_eq)
    qed
  qed
qed

lemma idify_suffix:
  "0 < suf \<Longrightarrow> idify pfx txt suf =
     (if filter (\<lambda>s. s \<noteq> []) [pfx, txt] = [] then show_nat suf
      else idify pfx txt 0 @ ''-'' @ show_nat suf)"
  by (auto simp: idify_def join_snoc)

lemma idify_inj: "idify pfx txt a = idify pfx txt b \<Longrightarrow> a = b"
proof (cases "a = 0"; cases "b = 0")
  assume "a \<noteq> 0" "b \<noteq> 0" and eq: "idify pfx txt a = idify pfx txt b"
  then have "show_nat a = show_nat b"
    by (simp add: idify_suffix split: if_splits)
  then show "a = b" by (rule show_nat_inj)
next
  assume "a = 0" "b \<noteq> 0" and eq: "idify pfx txt a = idify pfx txt b"
  then have False
    using show_nat_not_Nil [of b] by (auto simp: idify_suffix idify_def split: if_splits)
  then show "a = b" ..
next
  assume "a \<noteq> 0" "b = 0" and eq: "idify pfx txt a = idify pfx txt b"
  then have False
    using show_nat_not_Nil [of a] by (auto simp: idify_suffix idify_def split: if_splits)
  then show "a = b" ..
qed simp

lemma unique_id_reaches:
  "\<forall>j<k. getElementById doc (idify pfx txt (suf + j)) \<Longrightarrow>
   \<not> getElementById doc (idify pfx txt (suf + k)) \<Longrightarrow>
   unique_id doc pfx txt suf = Some (idify pfx txt (suf + k))"
proof (induction k arbitrary: suf)
  case 0
  then show ?case by (subst unique_id.simps) simp
next
  case (Suc k)
  from Suc.prems(1) have here: "getElementById doc (idify pfx txt suf)"
    by (metis add.right_neutral zero_less_Suc)
  have "\<forall>j<k. getElementById doc (idify pfx txt (Suc suf + j))"
    using Suc.prems(1) by (metis Suc_less_eq add_Suc_shift)
  moreover have "\<not> getElementById doc (idify pfx txt (Suc suf + k))"
    using Suc.prems(2) by simp
  ultimately have "unique_id doc pfx txt (Suc suf) = Some (idify pfx txt (Suc suf + k))"
    by (rule Suc.IH)
  with here show ?case by (subst unique_id.simps) simp
qed

lemma taken_suffixes_bounded:
  "finite {j. getElementById doc (idify pfx txt (suf + j))} \<and>
   card {j. getElementById doc (idify pfx txt (suf + j))} \<le> length doc"
proof -
  let ?K = "{j. getElementById doc (idify pfx txt (suf + j))}"
  let ?ids = "attr_id ` set doc"
  have inj: "inj_on (\<lambda>j. Some (idify pfx txt (suf + j))) ?K"
    by (auto simp: inj_on_def dest: idify_inj)
  have sub: "(\<lambda>j. Some (idify pfx txt (suf + j))) ` ?K \<subseteq> ?ids"
    by (auto simp: getElementById_def image_iff) metis
  have fin: "finite ?ids" by simp
  from inj sub fin have "finite ?K"
    by (metis finite_imageD finite_subset)
  moreover have "card ?K \<le> card ?ids"
    using inj sub fin by (metis card_image card_mono)
  moreover have "card ?ids \<le> length doc"
    by (metis card_image_le card_length le_trans List.finite_set)
  ultimately show ?thesis by simp
qed

lemma first_free_suffix:
  "\<exists>k\<le>length doc. (\<forall>j<k. getElementById doc (idify pfx txt (suf + j))) \<and>
      \<not> getElementById doc (idify pfx txt (suf + k))"
proof -
  let ?K = "{j. getElementById doc (idify pfx txt (suf + j))}"
  from taken_suffixes_bounded [of doc pfx "txt" suf]
  have fin: "finite ?K" and card: "card ?K \<le> length doc" by simp_all
  from fin have "\<exists>k. k \<notin> ?K"
    using infinite_UNIV_nat by (metis finite_subset subsetI UNIV_I)
  then obtain k0 where "k0 \<notin> ?K" ..
  define k where "k = (LEAST k. k \<notin> ?K)"
  have k: "k \<notin> ?K" "\<And>j. j < k \<Longrightarrow> j \<in> ?K"
  proof -
    from \<open>k0 \<notin> ?K\<close> show "k \<notin> ?K"
      unfolding k_def by (rule LeastI)
    fix j assume "j < k"
    then show "j \<in> ?K"
      unfolding k_def using not_less_Least by blast
  qed
  from k(2) have "{..<k} \<subseteq> ?K" by auto
  with fin have "card {..<k} \<le> card ?K" by (rule card_mono)
  with card have "k \<le> length doc" by simp
  with k show ?thesis by auto
qed

lemma unique_id_terminates:
  "\<exists>k\<le>length doc.
     unique_id doc pfx txt suf = Some (idify pfx txt (suf + k)) \<and>
     \<not> getElementById doc (idify pfx txt (suf + k)) \<and>
     (\<forall>j<k. getElementById doc (idify pfx txt (suf + j)))"
proof -
  from first_free_suffix [of doc pfx "txt" suf] obtain k where k: "k \<le> length doc"
    "\<forall>j<k. getElementById doc (idify pfx txt (suf + j))"
    "\<not> getElementById doc (idify pfx txt (suf + k))"
    by blast
  from k(2,3) have "unique_id doc pfx txt suf = Some (idify pfx txt (suf + k))"
    by (rule unique_id_reaches)
  with k show ?thesis by (intro exI [of _ k]) simp
qed

lemma slugify_returns: "\<exists>i. slugify doc el pfx unique = Some i"
proof (cases "attr_id el")
  case None
  from unique_id_terminates [of doc pfx "slug_text (textContent el)" 0]
  obtain i where "unique_id doc pfx (slug_text (textContent el)) 0 = Some i"
    by blast
  with None show ?thesis by (simp add: slugify_def Let_def)
next
  case (Some i)
  then show ?thesis by (simp add: slugify_def)
qed

lemma example_slug_text: "slug_text ''Node'' = ''node''"
  by (simp add: slug_text_def norm_def or_empty_def trim_spaces_def drop_trailing_def is_space_def toLowerCase_def
      upper_case_def lower_case_def is_word_def strip_hyphen_def)

lemma idify_dfn_node:
  "idify ''dfn'' ''node'' 0 = ''dfn-node''" "idify ''dfn'' ''node'' (Suc 0) = ''dfn-node-1''"
  "idify ''dfn'' ''node'' (Suc (Suc 0)) = ''dfn-node-2''"
  by (simp_all add: idify_def show_nat.simps)

text \<open>
  C10: the search loop of \<open>slugify\<close> ends on every document.  Each round adds one to the
  suffix, the identifiers tried are pairwise different, and a document of \<open>n\<close> elements
  holds at most \<open>n\<close> identifiers: after at most \<open>n\<close> rounds the loop returns an identifier
  that no element carries, every earlier candidate being taken.  So \<open>slugify\<close> returns on
  every element.
\<close>

theorem slugify_search_terminates:
  "(\<exists>k\<le>length doc.
      unique_id doc pfx txt suf = Some (idify pfx txt (suf + k)) \<and>
      \<not> getElementById doc (idify pfx txt (suf + k)) \<and>
      (\<forall>j<k. getElementById doc (idify pfx txt (suf + j)))) \<and>
   (\<exists>i. slugify doc el pfx unique = Some i)"
  using unique_id_terminates [of doc pfx "txt" suf] slugify_returns [of doc el pfx unique]
  by (rule conjI)

theorem slugify_search_terminates_witness:
  "unique_id
     [\<lparr>tag = ''p'', attr_id = Some ''dfn-node'', attr_href = None, className = [], textContent = []\<rparr>,
      \<lparr>tag = ''dfn'', attr_id = Some ''dfn-node-1'', attr_href = None, className = [],
       textContent = ''Node''\<rparr>,
      \<lparr>tag = ''dfn'', attr_id = None, attr_href = None, className = [], textContent = ''Node''\<rparr>]
     ''dfn'' ''node'' 0 = Some ''dfn-node-2'' \<and>
   (\<exists>k\<le>3. ''dfn-node-2'' = idify ''dfn'' ''node'' (0 + k))"
proof -
  let ?doc = "[\<lparr>tag = ''p'', attr_id = Some ''dfn-node'', attr_href = None, className = [], textContent = []\<rparr>,
      \<lparr>tag = ''dfn'', attr_id = Some ''dfn-node-1'', attr_href = None, className = [],
       textContent = ''Node''\<rparr>,
      \<lparr>tag = ''dfn'', attr_id = None, attr_href = None, className = [], textContent = ''Node''\<rparr>]"
  have run: "unique_id ?doc ''dfn'' ''node'' 0 = Some ''dfn-node-2''"
    by (simp add: unique_id.simps [of _ _ _ 0] unique_id.simps [of _ _ _ "Suc 0"]
        unique_id.simps [of _ _ _ "Suc (Suc 0)"] idify_dfn_node getElementById_def)
  from slugify_search_terminates [of ?doc "''dfn''" "''node''" 0, THEN conjunct1]
  obtain k where "k \<le> length ?doc" "unique_id ?doc ''dfn'' ''node'' 0 = Some (idify ''dfn'' ''node'' (0 + k))"
    by blast
  with run have "k \<le> 3" "''dfn-node-2'' = idify ''dfn'' ''node'' (0 + k)"
    by simp_all
  then have "\<exists>k\<le>3. ''dfn-node-2'' = idify ''dfn'' ''node'' (0 + k)"
    by blast
  with run show ?thesis by (rule conjI)
qed

section \<open>The resolver\<close>

lemma idify_dfn_not_Nil: "idify ''dfn'' txt k \<noteq> []"
  using show_nat_not_Nil [of k] by (cases "txt = []"; cases "k = 0") (auto simp: idify_def)

lemma slugify_explicit: "attr_id el = Some i \<Longrightarrow> slugify doc el pfx unique = Some i"
  by (simp add: slugify_def)

lemma slugify_unique_fresh:
  "attr_id el = None \<Longrightarrow>
   \<exists>k. slugify doc el pfx True = Some (idify pfx (slug_text (textContent el)) k) \<and>
       \<not> getElementById doc (idify pfx (slug_text (textContent el)) k)"
  using unique_id_terminates [of doc pfx "slug_text (textContent el)" 0]
  by (auto simp: slugify_def Let_def)

lemma attr_id_update_same: "attr_id e = Some a \<Longrightarrow> e\<lparr>attr_id := Some a\<rparr> = e"
  by (cases e) simp

lemma assign_dfn_ids_Cons_other:
  "tag e \<noteq> ''dfn'' \<or> attr_id e \<noteq> None \<Longrightarrow>
   assign_dfn_ids seen (e # rest) = assign_dfn_ids (seen @ [e]) rest"
  by (cases "attr_id e") (auto simp: slugify_def attr_id_update_same)

lemma assign_dfn_ids_Cons_dfn:
  "tag e = ''dfn'' \<Longrightarrow> slugify (seen @ e # rest) e ''dfn'' True = Some x \<Longrightarrow>
   assign_dfn_ids seen (e # rest) = assign_dfn_ids (seen @ [e\<lparr>attr_id := Some x\<rparr>]) rest"
  by simp

lemma assign_dfn_ids_steps:
  "\<exists>res. assign_dfn_ids seen todo = Some (seen @ res) \<and> length res = length todo \<and>
     (\<forall>i<length todo.
        if tag (todo ! i) = ''dfn'' \<and> attr_id (todo ! i) = None
        then \<exists>k. res ! i = (todo ! i)\<lparr>attr_id := Some (idify ''dfn'' (slug_text (textContent (todo ! i))) k)\<rparr> \<and>
               \<not> getElementById (seen @ take i res @ drop i todo)
                    (idify ''dfn'' (slug_text (textContent (todo ! i))) k)
        else res ! i = todo ! i)"
proof (induction todo arbitrary: seen)
  case Nil
  show ?case by simp
next
  case (Cons e rest)
  let ?P = "\<lambda>seen todo res i. if tag (todo ! i) = ''dfn'' \<and> attr_id (todo ! i) = None
        then \<exists>k. res ! i = (todo ! i)\<lparr>attr_id := Some (idify ''dfn'' (slug_text (textContent (todo ! i))) k)\<rparr> \<and>
               \<not> getElementById (seen @ take i res @ drop i todo)
                    (idify ''dfn'' (slug_text (textContent (todo ! i))) k)
        else res ! i = todo ! i"
  show ?case
  proof (cases "tag e = ''dfn'' \<and> attr_id e = None")
    case False
    then have step: "assign_dfn_ids seen (e # rest) = assign_dfn_ids (seen @ [e]) rest"
      by (intro assign_dfn_ids_Cons_other) auto
    from Cons.IH [of "seen @ [e]"] obtain res where res:
      "assign_dfn_ids (seen @ [e]) rest = Some ((seen @ [e]) @ res)" "length res = length rest"
      "\<forall>i<length rest. ?P (seen @ [e]) rest res i"
      by blast
    have "\<forall>i<length (e # rest). ?P seen (e # rest) (e # res) i"
    proof (intro allI impI)
      fix i assume i: "i < length (e # rest)"
      show "?P seen (e # rest) (e # res) i"
      proof (cases i)
        case 0
        with False show ?thesis by auto
      next
        case (Suc j)
        with i have "j < length rest" by simp
        with res(3) have "?P (seen @ [e]) rest res j" by blast
        then show ?thesis by (auto simp: Suc split: if_splits)
      qed
    qed
    with res(1,2) step show ?thesis
      by (intro exI [of _ "e # res"]) simp
  next
    case True
    then have none: "attr_id e = None" and dfn: "tag e = ''dfn''" by simp_all
    from slugify_unique_fresh [OF none, of "seen @ e # rest" "''dfn''"] obtain k where k:
      "slugify (seen @ e # rest) e ''dfn'' True = Some (idify ''dfn'' (slug_text (textContent e)) k)"
      "\<not> getElementById (seen @ e # rest) (idify ''dfn'' (slug_text (textContent e)) k)"
      by blast
    define e' where "e' = e\<lparr>attr_id := Some (idify ''dfn'' (slug_text (textContent e)) k)\<rparr>"
    have step: "assign_dfn_ids seen (e # rest) = assign_dfn_ids (seen @ [e']) rest"
      unfolding e'_def by (rule assign_dfn_ids_Cons_dfn [OF dfn k(1)])
    from Cons.IH [of "seen @ [e']"] obtain res where res:
      "assign_dfn_ids (seen @ [e']) rest = Some ((seen @ [e']) @ res)" "length res = length rest"
      "\<forall>i<length rest. ?P (seen @ [e']) rest res i"
      by blast
    have "\<forall>i<length (e # rest). ?P seen (e # rest) (e' # res) i"
    proof (intro allI impI)
      fix i assume i: "i < length (e # rest)"
      show "?P seen (e # rest) (e' # res) i"
      proof (cases i)
        case 0
        with True k(2) show ?thesis by (auto simp: e'_def)
      next
        case (Suc j)
        with i have "j < length rest" by simp
        with res(3) have "?P (seen @ [e']) rest res j" by blast
        then show ?thesis by (auto simp: Suc split: if_splits)
      qed
    qed
    with res(1,2) step show ?thesis
      by (intro exI [of _ "e' # res"]) simp
  qed
qed

lemma resolve_links_frame:
  "\<exists>res errs'. resolve_links seen todo errs = Some (seen @ res, errs') \<and>
     map attr_id res = map attr_id todo \<and> map tag res = map tag todo \<and>
     map textContent res = map textContent todo"
proof (induction todo arbitrary: seen errs)
  case Nil
  show ?case by simp
next
  case (Cons a rest)
  obtain i where i: "slugify (seen @ a # rest) a ''dfn'' False = Some i"
    using slugify_returns by blast
  define a' where "a' = a\<lparr>attr_href := Some (''#'' @ i), className := ''dfn-ref''\<rparr>"
  define msg where "msg = ''Empty link '' @ quote @ textContent a @ quote @ '' (#'' @ i
                              @ '') has no matching dfn.''"
  consider (link) "resolve_links seen (a # rest) errs = resolve_links (seen @ [a']) rest errs"
    | (miss) "resolve_links seen (a # rest) errs = resolve_links (seen @ [a]) rest (errs @ [msg])"
    | (skip) "resolve_links seen (a # rest) errs = resolve_links (seen @ [a]) rest errs"
    using i
    by (cases "tag a = ''a'' \<and> attr_href a = None"; cases "getElementById (seen @ a # rest) i")
       (simp_all add: a'_def msg_def)
  then show ?case
  proof cases
    case link
    from Cons.IH [of "seen @ [a']" errs] obtain res errs' where
      "resolve_links (seen @ [a']) rest errs = Some ((seen @ [a']) @ res, errs')"
      "map attr_id res = map attr_id rest" "map tag res = map tag rest"
      "map textContent res = map textContent rest"
      by blast
    with link show ?thesis
      by (intro exI [of _ "a' # res"] exI [of _ errs']) (simp add: a'_def)
  next
    case miss
    from Cons.IH [of "seen @ [a]" "errs @ [msg]"] obtain res errs' where
      "resolve_links (seen @ [a]) rest (errs @ [msg]) = Some ((seen @ [a]) @ res, errs')"
      "map attr_id res = map attr_id rest" "map tag res = map tag rest"
      "map textContent res = map textContent rest"
      by blast
    with miss show ?thesis
      by (intro exI [of _ "a # res"] exI [of _ errs']) simp
  next
    case skip
    from Cons.IH [of "seen @ [a]" errs] obtain res errs' where
      "resolve_links (seen @ [a]) rest errs = Some ((seen @ [a]) @ res, errs')"
      "map attr_id res = map attr_id rest" "map tag res = map tag rest"
      "map textContent res = map textContent rest"
      by blast
    with skip show ?thesis
      by (intro exI [of _ "a # res"] exI [of _ errs']) simp
  qed
qed


lemma resolver_frame:
  "\<exists>doc' errs'. resolver doc errs = Some (doc', errs') \<and> length doc' = length doc \<and>
     (\<forall>n<length doc. attr_id (doc ! n) \<noteq> None \<longrightarrow> attr_id (doc' ! n) = attr_id (doc ! n))"
proof -
  from assign_dfn_ids_steps [of "[]" doc] obtain d where d:
    "assign_dfn_ids [] doc = Some d" "length d = length doc"
    "\<forall>i<length doc. if tag (doc ! i) = ''dfn'' \<and> attr_id (doc ! i) = None
        then \<exists>k. d ! i = (doc ! i)\<lparr>attr_id := Some (idify ''dfn'' (slug_text (textContent (doc ! i))) k)\<rparr> \<and>
               \<not> getElementById ([] @ take i d @ drop i doc)
                    (idify ''dfn'' (slug_text (textContent (doc ! i))) k)
        else d ! i = doc ! i"
    by auto
  from resolve_links_frame [of "[]" d errs] obtain doc' errs' where l:
    "resolve_links [] d errs = Some (doc', errs')" "map attr_id doc' = map attr_id d"
    by auto
  from l(2) have len: "length doc' = length d"
    by (rule map_eq_imp_length_eq)
  have "attr_id (doc' ! n) = attr_id (doc ! n)" if n: "n < length doc" and id: "attr_id (doc ! n) \<noteq> None" for n
  proof -
    from n len d(2) have "attr_id (doc' ! n) = map attr_id doc' ! n" by simp
    also have "\<dots> = attr_id (d ! n)" using n d(2) by (simp add: l(2))
    also from d(3) n id have "d ! n = doc ! n" by (auto split: if_splits)
    finally show ?thesis .
  qed
  with d(1,2) l(1) len show ?thesis
    by (auto simp: resolver_def)
qed

lemma example_slug_text_link: "slug_text ''node'' = ''node''"
  by (simp add: slug_text_def norm_def or_empty_def trim_spaces_def drop_trailing_def is_space_def toLowerCase_def
      upper_case_def lower_case_def is_word_def strip_hyphen_def)

lemma example_resolver:
  "resolver (elements example_alpha) [] =
     Some ([\<lparr>tag = ''p'', attr_id = Some ''abstract'', attr_href = None, className = [],
              textContent = ''See [[beta]] and [[rfc9999]].''\<rparr>,
            \<lparr>tag = ''dfn'', attr_id = Some ''dfn-node'', attr_href = None, className = [],
              textContent = ''Node''\<rparr>,
            \<lparr>tag = ''dfn'', attr_id = Some ''dfn-node-1'', attr_href = None, className = [],
              textContent = ''Node''\<rparr>,
            \<lparr>tag = ''dfn'', attr_id = Some ''hash'', attr_href = None, className = [],
              textContent = ''Hash Chain''\<rparr>,
            \<lparr>tag = ''a'', attr_id = None, attr_href = Some ''#dfn-node'', className = ''dfn-ref'',
              textContent = ''node''\<rparr>], [])"
  by (simp add: resolver_def example_alpha_def slugify_def example_slug_text example_slug_text_link idify_dfn_node
      unique_id.simps [of _ _ _ 0] unique_id.simps [of _ _ _ "Suc 0"] getElementById_def)

text \<open>
  C9: an element that already carries an \<open>id\<close> attribute keeps it.  \<open>slugify\<close> returns
  that identifier verbatim, whatever the document, the prefix and the flag; and after the
  resolver has run (the pass over the definitions, then the pass over the links), every
  element that had an identifier before has the same identifier.
\<close>

theorem explicit_ids_kept:
  "(attr_id el = Some i \<longrightarrow> slugify d el pfx unique = Some i) \<and>
   (\<exists>doc' errs'. resolver doc errs = Some (doc', errs') \<and> length doc' = length doc \<and>
      (\<forall>n<length doc. attr_id (doc ! n) \<noteq> None \<longrightarrow> attr_id (doc' ! n) = attr_id (doc ! n)))"
  using slugify_explicit [of el i d pfx unique] resolver_frame [of doc errs] by blast

theorem explicit_ids_kept_witness:
  "attr_id (elements example_alpha ! 3) = Some ''hash'' \<and>
   slugify [] (elements example_alpha ! 3) ''dfn'' True = Some ''hash'' \<and>
   (\<exists>doc' errs'. resolver (elements example_alpha) [] = Some (doc', errs') \<and>
      attr_id (doc' ! 3) = Some ''hash'' \<and> attr_id (doc' ! 1) = Some ''dfn-node'')"
proof -
  have id: "attr_id (elements example_alpha ! 3) = Some ''hash''"
    and len: "3 < length (elements example_alpha)"
    by (simp_all add: example_alpha_def)
  note kept = explicit_ids_kept [of "elements example_alpha ! 3" "''hash''" "[]" "''dfn''" True
      "elements example_alpha" "[]"]
  from kept id have s: "slugify [] (elements example_alpha ! 3) ''dfn'' True = Some ''hash''"
    by blast
  from kept obtain doc' errs' where r: "resolver (elements example_alpha) [] = Some (doc', errs')"
    and f: "\<forall>n<length (elements example_alpha). attr_id (elements example_alpha ! n) \<noteq> None \<longrightarrow>
        attr_id (doc' ! n) = attr_id (elements example_alpha ! n)"
    by blast
  from f len id have "attr_id (doc' ! 3) = Some ''hash''"
    by simp
  moreover from r have "attr_id (doc' ! 1) = Some ''dfn-node''"
    by (auto simp: example_resolver)
  ultimately show ?thesis using id s r by blast
qed

section \<open>Identifiers of the definition sites\<close>

lemma not_getElementById:
  "i \<noteq> [] \<Longrightarrow> \<not> getElementById doc i \<Longrightarrow> e \<in> set doc \<Longrightarrow> attr_id e \<noteq> Some i"
  by (auto simp: getElementById_def)

lemma assign_dfn_ids_from_start:
  "\<exists>d. assign_dfn_ids [] doc = Some d \<and> length d = length doc \<and>
     (\<forall>n<length doc.
        (tag (doc ! n) = ''dfn'' \<and> attr_id (doc ! n) = None \<longrightarrow>
           (\<exists>k. d ! n = (doc ! n)\<lparr>attr_id := Some (idify ''dfn'' (slug_text (textContent (doc ! n))) k)\<rparr> \<and>
                \<not> getElementById (take n d @ drop n doc)
                     (idify ''dfn'' (slug_text (textContent (doc ! n))) k))) \<and>
        (\<not> (tag (doc ! n) = ''dfn'' \<and> attr_id (doc ! n) = None) \<longrightarrow> d ! n = doc ! n))"
proof -
  from assign_dfn_ids_steps [of "[]" doc] obtain d where d:
    "assign_dfn_ids [] doc = Some ([] @ d)" "length d = length doc"
    "\<forall>i<length doc. if tag (doc ! i) = ''dfn'' \<and> attr_id (doc ! i) = None
        then \<exists>k. d ! i = (doc ! i)\<lparr>attr_id := Some (idify ''dfn'' (slug_text (textContent (doc ! i))) k)\<rparr> \<and>
               \<not> getElementById ([] @ take i d @ drop i doc)
                    (idify ''dfn'' (slug_text (textContent (doc ! i))) k)
        else d ! i = doc ! i"
    by blast
  have "(tag (doc ! n) = ''dfn'' \<and> attr_id (doc ! n) = None \<longrightarrow>
           (\<exists>k. d ! n = (doc ! n)\<lparr>attr_id := Some (idify ''dfn'' (slug_text (textContent (doc ! n))) k)\<rparr> \<and>
                \<not> getElementById (take n d @ drop n doc)
                     (idify ''dfn'' (slug_text (textContent (doc ! n))) k))) \<and>
        (\<not> (tag (doc ! n) = ''dfn'' \<and> attr_id (doc ! n) = None) \<longrightarrow> d ! n = doc ! n)"
    if "n < length doc" for n
    using d(3) [rule_format, OF that] by (cases "tag (doc ! n) = ''dfn'' \<and> attr_id (doc ! n) = None") auto
  with d(1,2) show ?thesis by (intro exI [of _ d]) simp
qed

lemma assign_dfn_ids_distinct:
  assumes run: "assign_dfn_ids [] doc = Some d"
    and i: "i < length doc" and j: "j < length doc" and ne: "i \<noteq> j"
    and site: "tag (doc ! j) = ''dfn''" "attr_id (doc ! j) = None"
  shows "attr_id (d ! i) \<noteq> attr_id (d ! j)"
proof -
  let ?x = "\<lambda>n k. idify ''dfn'' (slug_text (textContent (doc ! n))) k"
  from assign_dfn_ids_from_start [of doc] run have len: "length d = length doc"
    and steps: "\<forall>n<length doc.
        (tag (doc ! n) = ''dfn'' \<and> attr_id (doc ! n) = None \<longrightarrow>
           (\<exists>k. d ! n = (doc ! n)\<lparr>attr_id := Some (?x n k)\<rparr> \<and>
                \<not> getElementById (take n d @ drop n doc) (?x n k))) \<and>
        (\<not> (tag (doc ! n) = ''dfn'' \<and> attr_id (doc ! n) = None) \<longrightarrow> d ! n = doc ! n)"
    by auto
  from steps [rule_format, OF j, THEN conjunct1, rule_format] site obtain kj where kj:
    "d ! j = (doc ! j)\<lparr>attr_id := Some (?x j kj)\<rparr>"
    "\<not> getElementById (take j d @ drop j doc) (?x j kj)"
    by blast
  have idj: "attr_id (d ! j) = Some (?x j kj)" by (simp add: kj(1))
  have freshj: "attr_id e \<noteq> Some (?x j kj)" if "e \<in> set (take j d @ drop j doc)" for e
    using idify_dfn_not_Nil kj(2) that by (rule not_getElementById)
  show ?thesis
  proof (cases "i < j")
    case True
    with j len have "d ! i \<in> set (take j d)"
      by (auto simp: in_set_conv_nth intro!: exI [of _ i])
    then have "d ! i \<in> set (take j d @ drop j doc)" by simp
    from freshj [OF this] idj show ?thesis by simp
  next
    case False
    with ne have gt: "j < i" by simp
    show ?thesis
    proof (cases "tag (doc ! i) = ''dfn'' \<and> attr_id (doc ! i) = None")
      case True
      from steps [rule_format, OF i, THEN conjunct1, rule_format, OF True] obtain ki where ki:
        "d ! i = (doc ! i)\<lparr>attr_id := Some (?x i ki)\<rparr>"
        "\<not> getElementById (take i d @ drop i doc) (?x i ki)"
        by blast
      from gt i len have "d ! j \<in> set (take i d)"
        by (auto simp: in_set_conv_nth intro!: exI [of _ j])
      then have "d ! j \<in> set (take i d @ drop i doc)" by simp
      with idify_dfn_not_Nil ki(2) have "attr_id (d ! j) \<noteq> Some (?x i ki)"
        by (rule not_getElementById)
      then show ?thesis by (simp add: ki(1) idj)
    next
      case False
      from steps [rule_format, OF i, THEN conjunct2, rule_format, OF False]
      have same: "d ! i = doc ! i" .
      from gt i have "doc ! i \<in> set (drop j doc)"
        by (auto simp: in_set_conv_nth intro!: exI [of _ "i - j"])
      then have "doc ! i \<in> set (take j d @ drop j doc)" by simp
      from freshj [OF this] same idj show ?thesis by simp
    qed
  qed
qed


lemma assign_dfn_ids_collection:
  assumes seen: "\<forall>k. (\<exists>e\<in>set seen. attr_id e = Some (idify ''dfn'' txt k)) = (k < n)"
    and clean: "\<forall>e\<in>set todo. \<not> raw_slug_site txt e \<longrightarrow> \<not> clashes txt e"
  shows "\<exists>res. assign_dfn_ids seen todo = Some (seen @ res) \<and> length res = length todo \<and>
     (\<forall>i<length todo. raw_slug_site txt (todo ! i) \<longrightarrow>
        attr_id (res ! i) =
          Some (idify ''dfn'' txt (n + length (filter (raw_slug_site txt) (take i todo)))))"
  using assms
proof (induction todo arbitrary: seen n)
  case Nil
  show ?case by simp
next
  case (Cons e rest)
  let ?c = "idify ''dfn'' txt"
  let ?Q = "\<lambda>n todo res i. raw_slug_site txt (todo ! i) \<longrightarrow>
        attr_id (res ! i) = Some (?c (n + length (filter (raw_slug_site txt) (take i todo))))"
  from Cons.prems(2) have clean': "\<forall>e\<in>set rest. \<not> raw_slug_site txt e \<longrightarrow> \<not> clashes txt e"
    by simp
  have todo_ids: "attr_id e' \<noteq> Some (?c k)" if "e' \<in> set (e # rest)" for e' k
  proof (cases "raw_slug_site txt e'")
    case True
    then show ?thesis by (simp add: raw_slug_site_def)
  next
    case False
    with Cons.prems(2) that have "\<not> clashes txt e'" by blast
    then show ?thesis by (auto simp: clashes_def split: option.splits)
  qed
  \<comment> \<open>the element is not changed, or gets an identifier outside the candidates\<close>
  have other: ?case
    if step: "assign_dfn_ids seen (e # rest) = assign_dfn_ids (seen @ [e']) rest"
      and id: "\<forall>k. attr_id e' \<noteq> Some (?c k)" and no: "\<not> raw_slug_site txt e" for e'
  proof -
    from Cons.prems(1) id
    have "\<forall>k. (\<exists>e\<in>set (seen @ [e']). attr_id e = Some (?c k)) = (k < n)"
      by auto
    from Cons.IH [OF this clean'] obtain res where res:
      "assign_dfn_ids (seen @ [e']) rest = Some ((seen @ [e']) @ res)" "length res = length rest"
      "\<forall>i<length rest. ?Q n rest res i"
      by blast
    have "?Q n (e # rest) (e' # res) i" if "i < length (e # rest)" for i
    proof (cases i)
      case 0
      with no show ?thesis by simp
    next
      case (Suc j)
      with that res(3) have "?Q n rest res j" by simp
      with no show ?thesis by (simp add: Suc)
    qed
    with res(1,2) step show ?thesis
      by (intro exI [of _ "e' # res"]) simp
  qed
  show ?case
  proof (cases "raw_slug_site txt e")
    case True
    then have dfn: "tag e = ''dfn''" and none: "attr_id e = None"
      and tx: "slug_text (textContent e) = txt"
      by (simp_all add: raw_slug_site_def)
    have taken: "getElementById (seen @ e # rest) (?c k) = (k < n)" for k
    proof -
      have "(\<exists>e'\<in>set (seen @ e # rest). attr_id e' = Some (?c k)) =
          (\<exists>e'\<in>set seen. attr_id e' = Some (?c k))"
        using todo_ids [of _ k] by auto
      with Cons.prems(1) show ?thesis
        by (simp add: getElementById_def idify_dfn_not_Nil)
    qed
    have "unique_id (seen @ e # rest) ''dfn'' txt 0 = Some (?c (0 + n))"
      by (rule unique_id_reaches) (simp_all add: taken)
    with none tx have slug: "slugify (seen @ e # rest) e ''dfn'' True = Some (?c n)"
      by (simp add: slugify_def)
    define e' where "e' = e\<lparr>attr_id := Some (?c n)\<rparr>"
    have step: "assign_dfn_ids seen (e # rest) = assign_dfn_ids (seen @ [e']) rest"
      unfolding e'_def by (rule assign_dfn_ids_Cons_dfn [OF dfn slug])
    have "(\<exists>e\<in>set (seen @ [e']). attr_id e = Some (?c k)) = (k < Suc n)" for k
    proof -
      have "(?c n = ?c k) = (k = n)"
        using idify_inj [of "''dfn''" "txt" n k] by auto
      with Cons.prems(1) show ?thesis
        by (auto simp: e'_def less_Suc_eq)
    qed
    then have "\<forall>k. (\<exists>e\<in>set (seen @ [e']). attr_id e = Some (?c k)) = (k < Suc n)"
      by blast
    from Cons.IH [OF this clean'] obtain res where res:
      "assign_dfn_ids (seen @ [e']) rest = Some ((seen @ [e']) @ res)" "length res = length rest"
      "\<forall>i<length rest. ?Q (Suc n) rest res i"
      by blast
    have "?Q n (e # rest) (e' # res) i" if "i < length (e # rest)" for i
    proof (cases i)
      case 0
      show ?thesis by (simp add: 0 e'_def)
    next
      case (Suc j)
      with that res(3) have "?Q (Suc n) rest res j" by simp
      with True show ?thesis by (simp add: Suc)
    qed
    with res(1,2) step show ?thesis
      by (intro exI [of _ "e' # res"]) simp
  next
    case False
    with Cons.prems(2) have noclash: "\<not> clashes txt e" by simp
    show ?thesis
    proof (cases "tag e = ''dfn'' \<and> attr_id e = None")
      case True
      then have dfn: "tag e = ''dfn''" and none: "attr_id e = None" by simp_all
      from slugify_unique_fresh [OF none, of "seen @ e # rest" "''dfn''"] obtain k' where
        slug: "slugify (seen @ e # rest) e ''dfn'' True = Some (idify ''dfn'' (slug_text (textContent e)) k')"
        by blast
      from noclash dfn none have "\<forall>k. idify ''dfn'' (slug_text (textContent e)) k' \<noteq> ?c k"
        by (simp add: clashes_def)
      then have id: "\<forall>k. attr_id (e\<lparr>attr_id := Some (idify ''dfn'' (slug_text (textContent e)) k')\<rparr>) \<noteq> Some (?c k)"
        by simp
      from assign_dfn_ids_Cons_dfn [OF dfn slug] id False show ?thesis
        by (rule other)
    next
      case other_tag: False
      then have step: "assign_dfn_ids seen (e # rest) = assign_dfn_ids (seen @ [e]) rest"
        by (intro assign_dfn_ids_Cons_other) auto
      have "\<forall>k. attr_id e \<noteq> Some (?c k)"
        using todo_ids [of e] by simp
      with step show ?thesis using False by (rule other)
    qed
  qed
qed


lemma resolver_ids:
  "\<exists>d doc' errs'. assign_dfn_ids [] doc = Some d \<and> resolver doc errs = Some (doc', errs') \<and>
     length d = length doc \<and> length doc' = length doc \<and> (\<forall>n<length doc. attr_id (doc' ! n) = attr_id (d ! n))"
proof -
  from assign_dfn_ids_from_start [of doc] obtain d where d:
    "assign_dfn_ids [] doc = Some d" "length d = length doc"
    by blast
  from resolve_links_frame [of "[]" d errs] obtain doc' errs' where l:
    "resolve_links [] d errs = Some (doc', errs')" "map attr_id doc' = map attr_id d"
    by auto
  from l(2) have len: "length doc' = length d"
    by (rule map_eq_imp_length_eq)
  have "attr_id (doc' ! n) = attr_id (d ! n)" if "n < length doc" for n
  proof -
    from that len d(2) have "attr_id (doc' ! n) = map attr_id doc' ! n" by simp
    also have "\<dots> = attr_id (d ! n)" using that d(2) by (simp add: l(2))
    finally show ?thesis .
  qed
  with d l(1) len show ?thesis
    by (auto simp: resolver_def)
qed

lemma idify_dfn_bare: "idify ''dfn'' txt 0 = (if txt = [] then ''dfn'' else ''dfn-'' @ txt)"
  by (simp add: idify_def)

lemma idify_dfn_Cons: "\<exists>r. idify ''dfn'' txt k = CHR ''d'' # r"
  by (cases "k = 0") (auto simp: idify_suffix idify_dfn_bare)

lemma example_no_clash:
  "\<forall>e\<in>set (elements example_alpha). \<not> raw_slug_site ''node'' e \<longrightarrow> \<not> clashes ''node'' e"
proof -
  have "i \<noteq> idify ''dfn'' ''node'' k" if "i = ''abstract'' \<or> i = ''hash''" for i k
    using idify_dfn_Cons [of "''node''" k] that by auto
  then show ?thesis
    by (simp add: example_alpha_def clashes_def raw_slug_site_def example_slug_text)
qed

text \<open>
  C2, as stated, fails: the first-seen site does not always keep the bare slug.  The
  search looks at every identifier of the document, so when another element already
  carries \<open>dfn-node\<close>, two \<open>dfn\<close> elements with the text Node get \<open>dfn-node-1\<close> and
  \<open>dfn-node-2\<close>.
\<close>

theorem dfn_suffix_counterexample:
  "resolver
     [\<lparr>tag = ''p'', attr_id = Some ''dfn-node'', attr_href = None, className = [], textContent = []\<rparr>,
      \<lparr>tag = ''dfn'', attr_id = None, attr_href = None, className = [], textContent = ''Node''\<rparr>,
      \<lparr>tag = ''dfn'', attr_id = None, attr_href = None, className = [], textContent = ''Node''\<rparr>] [] =
   Some
    ([\<lparr>tag = ''p'', attr_id = Some ''dfn-node'', attr_href = None, className = [], textContent = []\<rparr>,
      \<lparr>tag = ''dfn'', attr_id = Some ''dfn-node-1'', attr_href = None, className = [],
       textContent = ''Node''\<rparr>,
      \<lparr>tag = ''dfn'', attr_id = Some ''dfn-node-2'', attr_href = None, className = [],
       textContent = ''Node''\<rparr>], [])"
  by (simp add: resolver_def slugify_def example_slug_text idify_dfn_node
      unique_id.simps [of _ _ _ 0] unique_id.simps [of _ _ _ "Suc 0"]
      unique_id.simps [of _ _ _ "Suc (Suc 0)"] getElementById_def)

text \<open>
  C2, amended: on every document the pass over the definitions ends, and every \<open>dfn\<close>
  without an explicit \<open>id\<close> gets an identifier that no other element of the document has,
  so \<open>N\<close> sites of one raw slug get \<open>N\<close> pairwise distinct identifiers.  If moreover no
  element outside these sites clashes with the slug (none carries the slug bare or
  suffixed as its \<open>id\<close>, and no other \<open>dfn\<close> without an \<open>id\<close> can be given such an
  identifier), then in first-seen order the first site keeps the bare slug and the site
  seen after \<open>k\<close> others gets the slug with the suffix \<open>k\<close>, counted from 1.
\<close>

theorem dfn_suffixes:
  "\<exists>doc' errs'. resolver doc errs = Some (doc', errs') \<and> length doc' = length doc \<and>
     (\<forall>i<length doc. \<forall>j<length doc.
        i \<noteq> j \<and> tag (doc ! j) = ''dfn'' \<and> attr_id (doc ! j) = None \<longrightarrow>
        attr_id (doc' ! i) \<noteq> attr_id (doc' ! j)) \<and>
     ((\<forall>e\<in>set doc. \<not> raw_slug_site txt e \<longrightarrow> \<not> clashes txt e) \<longrightarrow>
        (\<forall>i<length doc. raw_slug_site txt (doc ! i) \<longrightarrow>
           attr_id (doc' ! i) =
             Some (idify ''dfn'' txt (length (filter (raw_slug_site txt) (take i doc)))))) \<and>
     idify ''dfn'' txt 0 = (if txt = [] then ''dfn'' else ''dfn-'' @ txt) \<and>
     (0 < k \<longrightarrow> idify ''dfn'' txt k = idify ''dfn'' txt 0 @ ''-'' @ show_nat k)"
proof -
  from resolver_ids [of doc errs] obtain d doc' errs' where r:
    "assign_dfn_ids [] doc = Some d" "resolver doc errs = Some (doc', errs')"
    "length d = length doc" "length doc' = length doc"
    "\<forall>n<length doc. attr_id (doc' ! n) = attr_id (d ! n)"
    by blast
  have distinct: "attr_id (doc' ! i) \<noteq> attr_id (doc' ! j)"
    if "i < length doc" "j < length doc" "i \<noteq> j \<and> tag (doc ! j) = ''dfn'' \<and> attr_id (doc ! j) = None"
    for i j
    using assign_dfn_ids_distinct [OF r(1), of i j] that r(5) by simp
  have form: "attr_id (doc' ! i) =
      Some (idify ''dfn'' txt (length (filter (raw_slug_site txt) (take i doc))))"
    if clean: "\<forall>e\<in>set doc. \<not> raw_slug_site txt e \<longrightarrow> \<not> clashes txt e"
      and i: "i < length doc" and site: "raw_slug_site txt (doc ! i)" for i
  proof -
    have "\<forall>k. (\<exists>e\<in>set []. attr_id e = Some (idify ''dfn'' txt k)) = (k < 0)"
      by simp
    from assign_dfn_ids_collection [OF this clean] r(1)
    have "\<forall>i<length doc. raw_slug_site txt (doc ! i) \<longrightarrow>
        attr_id (d ! i) = Some (idify ''dfn'' txt (0 + length (filter (raw_slug_site txt) (take i doc))))"
      by auto
    with i site r(5) show ?thesis by simp
  qed
  have suffix: "idify ''dfn'' txt k = idify ''dfn'' txt 0 @ ''-'' @ show_nat k" if "0 < k"
    using that by (simp add: idify_suffix)
  from r(2,4) distinct form suffix show ?thesis
    by (intro exI [of _ doc'] exI [of _ errs'] conjI allI impI idify_dfn_bare) blast+
qed

theorem dfn_suffixes_witness:
  "raw_slug_site ''node'' (elements example_alpha ! 1) \<and>
   raw_slug_site ''node'' (elements example_alpha ! 2) \<and>
   \<not> clashes ''node'' (elements example_alpha ! 0) \<and>
   (\<exists>doc' errs'. resolver (elements example_alpha) [] = Some (doc', errs') \<and>
      attr_id (doc' ! 1) = Some ''dfn-node'' \<and> attr_id (doc' ! 2) = Some ''dfn-node-1'' \<and>
      attr_id (doc' ! 1) \<noteq> attr_id (doc' ! 2))"
proof -
  have s1: "raw_slug_site ''node'' (elements example_alpha ! 1)"
    and s2: "raw_slug_site ''node'' (elements example_alpha ! 2)"
    by (simp_all add: example_alpha_def raw_slug_site_def example_slug_text)
  have c0: "\<not> clashes ''node'' (elements example_alpha ! 0)"
    using example_no_clash by (simp add: example_alpha_def raw_slug_site_def)
  have len: "1 < length (elements example_alpha)" "2 < length (elements example_alpha)"
    by (simp_all add: example_alpha_def)
  have n1: "length (filter (raw_slug_site ''node'') (take 1 (elements example_alpha))) = 0"
    and n2: "length (filter (raw_slug_site ''node'') (take 2 (elements example_alpha))) = Suc 0"
    by (simp_all add: example_alpha_def raw_slug_site_def example_slug_text)
  from dfn_suffixes [of "elements example_alpha" "[]" "''node''" 1]
  obtain doc' errs' where r: "resolver (elements example_alpha) [] = Some (doc', errs')"
    and d: "\<forall>i<length (elements example_alpha). \<forall>j<length (elements example_alpha).
        i \<noteq> j \<and> tag (elements example_alpha ! j) = ''dfn'' \<and> attr_id (elements example_alpha ! j) = None \<longrightarrow>
        attr_id (doc' ! i) \<noteq> attr_id (doc' ! j)"
    and f: "(\<forall>e\<in>set (elements example_alpha). \<not> raw_slug_site ''node'' e \<longrightarrow> \<not> clashes ''node'' e) \<longrightarrow>
        (\<forall>i<length (elements example_alpha). raw_slug_site ''node'' (elements example_alpha ! i) \<longrightarrow>
           attr_id (doc' ! i) =
             Some (idify ''dfn'' ''node'' (length (filter (raw_slug_site ''node'') (take i (elements example_alpha))))))"
    by blast
  from f example_no_clash have g: "\<forall>i<length (elements example_alpha). raw_slug_site ''node'' (elements example_alpha ! i) \<longrightarrow>
           attr_id (doc' ! i) =
             Some (idify ''dfn'' ''node'' (length (filter (raw_slug_site ''node'') (take i (elements example_alpha)))))"
    by blast
  from g [rule_format, OF len(1) s1] have a1: "attr_id (doc' ! 1) = Some ''dfn-node''"
    by (simp only: n1 idify_dfn_node)
  from g [rule_format, OF len(2) s2] have a2: "attr_id (doc' ! 2) = Some ''dfn-node-1''"
    by (simp only: n2 idify_dfn_node)
  from a1 a2 have "attr_id (doc' ! 1) \<noteq> attr_id (doc' ! 2)"
    by simp
  with s1 s2 c0 r a1 a2 show ?thesis by blast
qed

section \<open>The derivation of a slug\<close>

lemma drop_trailing_Cons:
  "drop_trailing P (x # s) = (if drop_trailing P s = [] \<and> P x then [] else x # drop_trailing P s)"
  by (simp add: drop_trailing_def dropWhile_append)

lemma drop_trailing_Nil [simp]: "drop_trailing P [] = []"
  by (simp add: drop_trailing_def)

lemma drop_trailing_map: "drop_trailing P (map f s) = map f (drop_trailing (P \<circ> f) s)"
  by (simp add: drop_trailing_def rev_map dropWhile_map)

lemma collapse_spaces_Cons: "\<exists>r. collapse_spaces (x # s) = (if is_space x then CHR '' '' else x) # r"
  by (induction "x # s" arbitrary: x s rule: collapse_spaces.induct) auto

lemma collapse_spaces_Nil_iff [simp]: "collapse_spaces s = [] \<longleftrightarrow> s = []"
  using collapse_spaces_Cons by (cases s) (simp, metis list.distinct(1))

lemma is_space_space: "is_space CHR '' ''"
  by (simp add: is_space_def)

lemma dropWhile_collapse_spaces:
  "dropWhile is_space (collapse_spaces s) = collapse_spaces (dropWhile is_space s)"
proof (induction s rule: collapse_spaces.induct)
  case (1 a b cs)
  obtain r where r: "collapse_spaces (b # cs) = (if is_space b then CHR '' '' else b) # r"
    using collapse_spaces_Cons by blast
  show ?case
  proof (cases "is_space a")
    case True
    with 1 show ?thesis by (auto simp: is_space_space)
  next
    case False
    then show ?thesis by simp
  qed
qed (simp_all add: is_space_space)

lemma drop_trailing_collapse_spaces:
  "drop_trailing is_space (collapse_spaces s) = collapse_spaces (drop_trailing is_space s)"
proof (induction s rule: collapse_spaces.induct)
  case (1 a b cs)
  let ?sp = "\<lambda>c. if is_space c then CHR '' '' else c"
  have sp: "is_space (?sp c) = is_space c" for c
    by (simp add: is_space_space)
  show ?case
  proof (cases "is_space a \<and> is_space b")
    case True
    with 1 have IH: "drop_trailing is_space (collapse_spaces (b # cs)) =
        collapse_spaces (drop_trailing is_space (b # cs))"
      by simp
    show ?thesis
    proof (cases "drop_trailing is_space (b # cs) = []")
      case e: True
      with True IH show ?thesis by (simp add: drop_trailing_Cons [of _ a])
    next
      case ne: False
      then have "drop_trailing is_space (b # cs) = b # drop_trailing is_space cs"
        by (simp add: drop_trailing_Cons [of _ b] split: if_splits)
      with True IH ne show ?thesis by (simp add: drop_trailing_Cons [of _ a])
    qed
  next
    case False
    with 1 have IH: "drop_trailing is_space (collapse_spaces (b # cs)) =
        collapse_spaces (drop_trailing is_space (b # cs))"
      by simp
    from False have c: "collapse_spaces (a # b # cs) = ?sp a # collapse_spaces (b # cs)"
      by simp
    show ?thesis
    proof (cases "drop_trailing is_space (b # cs) = []")
      case e: True
      with IH show ?thesis
        unfolding c by (simp add: drop_trailing_Cons [of _ a] drop_trailing_Cons [of _ "?sp a"] sp)
    next
      case ne: False
      then have "drop_trailing is_space (b # cs) = b # drop_trailing is_space cs"
        by (simp add: drop_trailing_Cons [of _ b] split: if_splits)
      with IH ne False show ?thesis
        unfolding c by (simp add: drop_trailing_Cons [of _ a] drop_trailing_Cons [of _ "?sp a"] sp)
    qed
  qed
next
  case (2 a)
  show ?case by (simp add: drop_trailing_Cons is_space_space)
next
  case 3
  show ?case by simp
qed

lemma trim_spaces_collapse_spaces:
  "trim_spaces (collapse_spaces s) = collapse_spaces (trim_spaces s)"
  by (simp add: trim_spaces_def dropWhile_collapse_spaces drop_trailing_collapse_spaces)

lemma trim_spaces_map_space:
  "trim_spaces (map (\<lambda>c. if is_space c then CHR '' '' else c) s) =
   map (\<lambda>c. if is_space c then CHR '' '' else c) (trim_spaces s)"
proof -
  have "is_space \<circ> (\<lambda>c. if is_space c then CHR '' '' else c) = is_space"
    by (auto simp: fun_eq_iff is_space_space)
  then show ?thesis
    by (simp add: trim_spaces_def dropWhile_map drop_trailing_map)
qed


lemma collapse_hyphens_hd: "\<exists>r. collapse_hyphens (x # s) = x # r"
  by (induction "x # s" arbitrary: x s rule: collapse_hyphens.induct) auto

lemma collapse_hyphens_Nil_iff [simp]: "collapse_hyphens s = [] \<longleftrightarrow> s = []"
  using collapse_hyphens_hd by (cases s) (simp, metis list.distinct(1))

lemma collapse_hyphens_Cons:
  "collapse_hyphens (x # y) =
     (if x = CHR ''-'' \<and> collapse_hyphens y \<noteq> [] \<and> hd (collapse_hyphens y) = CHR ''-''
      then collapse_hyphens y else x # collapse_hyphens y)"
proof (cases y)
  case Nil
  then show ?thesis by simp
next
  case (Cons b cs)
  obtain r where "collapse_hyphens (b # cs) = b # r"
    using collapse_hyphens_hd by blast
  with Cons show ?thesis by simp
qed

lemma collapse_hyphens_spaces:
  assumes g: "g CHR '' '' = CHR ''-''"
  shows "collapse_hyphens (map g (map (\<lambda>c. if is_space c then CHR '' '' else c) u)) =
         collapse_hyphens (map g (collapse_spaces u))"
proof (induction u rule: collapse_spaces.induct)
  case (1 a b cs)
  let ?sp = "\<lambda>c. if is_space c then CHR '' '' else c"
  show ?case
  proof (cases "is_space a \<and> is_space b")
    case True
    with 1 g show ?thesis by simp
  next
    case False
    with 1 have IH: "collapse_hyphens (map g (map ?sp (b # cs))) =
        collapse_hyphens (map g (collapse_spaces (b # cs)))"
      by simp
    have "collapse_hyphens (map g (map ?sp (a # b # cs))) =
        collapse_hyphens (g (?sp a) # map g (map ?sp (b # cs)))"
      by simp
    also have "\<dots> = collapse_hyphens (g (?sp a) # map g (collapse_spaces (b # cs)))"
      by (simp only: collapse_hyphens_Cons [of "g (?sp a)"] IH)
    also have "\<dots> = collapse_hyphens (map g (collapse_spaces (a # b # cs)))"
      using False by auto
    finally show ?thesis .
  qed
qed simp_all

lemma collapse_hyphens_no_double: "collapse_hyphens z \<noteq> u @ CHR ''-'' # CHR ''-'' # v"
proof (induction z arbitrary: u rule: collapse_hyphens.induct)
  case (1 a b cs)
  obtain r where r: "collapse_hyphens (b # cs) = b # r"
    using collapse_hyphens_hd by blast
  show ?case
  proof (cases "a = CHR ''-'' \<and> b = CHR ''-''")
    case True
    with 1 show ?thesis by simp
  next
    case False
    show ?thesis
    proof
      assume eq: "collapse_hyphens (a # b # cs) = u @ CHR ''-'' # CHR ''-'' # v"
      with False r have e: "a # b # r = u @ CHR ''-'' # CHR ''-'' # v" by auto
      show False
      proof (cases u)
        case Nil
        with e False show False by simp
      next
        case (Cons a' u')
        with e have "b # r = u' @ CHR ''-'' # CHR ''-'' # v" by simp
        with r "1.IH"(2) [OF False, of u'] show False by simp
      qed
    qed
  qed
qed (auto simp: Cons_eq_append_conv)

lemma strip_hyphen_trim:
  assumes "\<And>u v. s \<noteq> u @ CHR ''-'' # CHR ''-'' # v"
  shows "strip_hyphen s = trim_hyphens s"
proof -
  let ?h = "\<lambda>c. c = CHR ''-''"
  define s1 where "s1 = (case s of [] \<Rightarrow> [] | c # cs \<Rightarrow> if c = CHR ''-'' then cs else s)"
  have lead: "dropWhile ?h s = s1"
  proof (cases s)
    case Nil
    then show ?thesis by (simp add: s1_def)
  next
    case (Cons c cs)
    show ?thesis
    proof (cases "c = CHR ''-''")
      case True
      have "cs = [] \<or> hd cs \<noteq> CHR ''-''"
        using assms [of "[]" "tl cs"] Cons True by (cases cs) auto
      then have "dropWhile ?h cs = cs" by (cases cs) auto
      with Cons True show ?thesis by (simp add: s1_def)
    next
      case False
      with Cons show ?thesis by (simp add: s1_def)
    qed
  qed
  have nd: "s1 \<noteq> u @ CHR ''-'' # CHR ''-'' # v" for u v
  proof (cases s)
    case Nil
    then show ?thesis by (simp add: s1_def)
  next
    case (Cons c cs)
    then show ?thesis
      using assms [of u v] assms [of "c # u" v] by (auto simp: s1_def)
  qed
  have trail: "drop_trailing ?h s1 = (if s1 \<noteq> [] \<and> last s1 = CHR ''-'' then butlast s1 else s1)"
  proof (cases s1 rule: rev_cases)
    case Nil
    then show ?thesis by simp
  next
    case (snoc ys x)
    show ?thesis
    proof (cases "x = CHR ''-''")
      case True
      have "ys = [] \<or> last ys \<noteq> CHR ''-''"
      proof (cases ys rule: rev_cases)
        case Nil
        then show ?thesis by simp
      next
        case (snoc zs y)
        with nd [of zs "[]"] \<open>s1 = ys @ [x]\<close> True show ?thesis by auto
      qed
      then have "dropWhile ?h (rev ys) = rev ys"
        by (cases ys rule: rev_cases) auto
      with snoc True show ?thesis by (simp add: drop_trailing_def)
    next
      case False
      with snoc show ?thesis by (simp add: drop_trailing_def)
    qed
  qed
  show ?thesis
    unfolding strip_hyphen_def trim_hyphens_def lead trail s1_def [symmetric] Let_def ..
qed

lemma lower_hyphen_space:
  "(\<lambda>c. if is_word c then c else CHR ''-'')
     (case map_of (zip upper_case lower_case) CHR '' '' of Some l \<Rightarrow> l | None \<Rightarrow> CHR '' '') = CHR ''-''"
  by (simp add: upper_case_def lower_case_def is_word_def)

lemma slug_text_spec: "slug_text t = spec_slug_text t"
proof -
  let ?sp = "\<lambda>c. if is_space c then CHR '' '' else c"
  let ?hy = "\<lambda>c. if is_word c then c else CHR ''-''"
  let ?lc = "\<lambda>c. case map_of (zip upper_case lower_case) c of Some l \<Rightarrow> l | None \<Rightarrow> c"
  let ?g = "?hy \<circ> ?lc"
  have n: "norm (Some t) = map ?sp (trim_spaces t)"
    by (simp add: norm_def or_empty_def trim_spaces_map_space)
  have m: "trim_spaces (collapse_spaces t) = collapse_spaces (trim_spaces t)"
    by (rule trim_spaces_collapse_spaces)
  have g: "?g CHR '' '' = CHR ''-''"
    using lower_hyphen_space by simp
  have body: "collapse_hyphens (map ?hy (toLowerCase (let n = norm (Some t) in if n = [] then ''empty'' else n))) =
      collapse_hyphens (map ?hy (toLowerCase
         (let n = trim_spaces (collapse_spaces t) in if n = [] then ''empty'' else n)))"
  proof (cases "trim_spaces t = []")
    case True
    then show ?thesis by (simp add: n m)
  next
    case False
    have "collapse_hyphens (map ?g (map ?sp (trim_spaces t))) =
        collapse_hyphens (map ?g (collapse_spaces (trim_spaces t)))"
      using g by (rule collapse_hyphens_spaces)
    with False show ?thesis
      by (simp add: n m toLowerCase_def comp_def)
  qed
  show ?thesis
    unfolding slug_text_def spec_slug_text_def body
    by (rule strip_hyphen_trim) (rule collapse_hyphens_no_double)
qed

text \<open>
  C3, as stated, fails where the text leaves nothing once the hyphens are trimmed (a text
  of punctuation only): the pipeline of the claim ends with the token joined by a hyphen
  to an empty text, \<open>dfn-\<close>, while \<open>slugify\<close> joins only the parts that are not empty and
  returns \<open>dfn\<close>.
\<close>

theorem slug_prefix_counterexample:
  "slugify [] \<lparr>tag = ''a'', attr_id = None, attr_href = None, className = [], textContent = ''!''\<rparr>
     ''dfn'' False = Some ''dfn'' \<and>
   spec_slug ''!'' = ''dfn-''"
  by (simp add: slugify_def idify_def slug_text_def spec_slug_def spec_slug_text_def norm_def
      or_empty_def trim_spaces_def drop_trailing_def is_space_def toLowerCase_def upper_case_def
      lower_case_def is_word_def strip_hyphen_def trim_hyphens_def)

text \<open>
  C3, amended: the text part of the identifier of an element without an explicit \<open>id\<close> is
  the result of the pipeline of the claim on its text content (white space normalized, the
  placeholder \<open>empty\<close> for an empty text, lower case, a hyphen for every character that is
  not a word character, repeated hyphens collapsed, hyphens trimmed at both ends).  The
  identifier that a link derives is the token \<open>dfn\<close> joined to that text by a hyphen when
  the text is not empty, and the bare token \<open>dfn\<close> when it is; the identifier of a
  definition site is the same with the numeric suffix of the search, if any.
\<close>

theorem slug_derivation:
  "slug_text t = spec_slug_text t \<and>
   slugify doc (el\<lparr>attr_id := None\<rparr>) ''dfn'' False =
     Some (if spec_slug_text (textContent el) = [] then ''dfn'' else spec_slug (textContent el)) \<and>
   (\<exists>k. slugify doc (el\<lparr>attr_id := None\<rparr>) ''dfn'' True =
      Some (idify ''dfn'' (spec_slug_text (textContent el)) k))"
proof (intro conjI)
  show "slug_text t = spec_slug_text t"
    by (rule slug_text_spec)
  show "slugify doc (el\<lparr>attr_id := None\<rparr>) ''dfn'' False =
     Some (if spec_slug_text (textContent el) = [] then ''dfn'' else spec_slug (textContent el))"
    by (simp add: slugify_def slug_text_spec idify_dfn_bare spec_slug_def)
  from slugify_unique_fresh [of "el\<lparr>attr_id := None\<rparr>" doc "''dfn''"]
  show "\<exists>k. slugify doc (el\<lparr>attr_id := None\<rparr>) ''dfn'' True =
      Some (idify ''dfn'' (spec_slug_text (textContent el)) k)"
    by (auto simp: slug_text_spec)
qed

theorem slug_derivation_witness:
  "spec_slug '' Hash   Chain  '' = ''dfn-hash-chain'' \<and>
   slugify [] \<lparr>tag = ''a'', attr_id = None, attr_href = None, className = [],
                textContent = '' Hash   Chain  ''\<rparr> ''dfn'' False = Some ''dfn-hash-chain''"
proof -
  have s: "spec_slug '' Hash   Chain  '' = ''dfn-hash-chain''"
    by (simp add: spec_slug_def spec_slug_text_def trim_spaces_def drop_trailing_def is_space_def
        toLowerCase_def upper_case_def lower_case_def is_word_def trim_hyphens_def)
  then have "spec_slug_text '' Hash   Chain  '' \<noteq> []"
    by (auto simp: spec_slug_def)
  with s slug_derivation [of "[]" "[]"
      "\<lparr>tag = ''a'', attr_id = None, attr_href = None, className = [], textContent = '' Hash   Chain  ''\<rparr>"]
  show ?thesis by simp
qed

section \<open>The expansion of the citation markers\<close>

lemma not_key_char_brackets: "\<not> is_key_char CHR ''[''" "\<not> is_key_char CHR '']''"
  by (simp_all add: is_key_char_def is_word_def)

lemma match_marker_Some:
  "match_marker s = Some (ref, rest) \<longleftrightarrow>
     (\<exists>r. s = CHR ''['' # CHR ''['' # r \<and> ref = takeWhile is_key_char r \<and> ref \<noteq> [] \<and>
          dropWhile is_key_char r = CHR '']'' # CHR '']'' # rest)"
proof
  assume "match_marker s = Some (ref, rest)"
  then show "\<exists>r. s = CHR ''['' # CHR ''['' # r \<and> ref = takeWhile is_key_char r \<and> ref \<noteq> [] \<and>
          dropWhile is_key_char r = CHR '']'' # CHR '']'' # rest"
    unfolding match_marker_def by (simp split: list.splits if_splits)
next
  assume "\<exists>r. s = CHR ''['' # CHR ''['' # r \<and> ref = takeWhile is_key_char r \<and> ref \<noteq> [] \<and>
          dropWhile is_key_char r = CHR '']'' # CHR '']'' # rest"
  then obtain r where "s = CHR ''['' # CHR ''['' # r" "ref = takeWhile is_key_char r" "ref \<noteq> []"
    "dropWhile is_key_char r = CHR '']'' # CHR '']'' # rest"
    by blast
  then show "match_marker s = Some (ref, rest)"
    unfolding match_marker_def by simp
qed

lemma match_marker_shorter: "match_marker s = Some (ref, rest) \<Longrightarrow> length rest < length s"
proof -
  assume "match_marker s = Some (ref, rest)"
  then obtain r where s: "s = CHR ''['' # CHR ''['' # r"
    and d: "dropWhile is_key_char r = CHR '']'' # CHR '']'' # rest"
    by (auto simp: match_marker_Some)
  from d have "length rest < length (dropWhile is_key_char r)" by simp
  also have "\<dots> \<le> length r" by (rule length_dropWhile_le)
  finally show ?thesis using s by simp
qed

lemma match_marker_here:
  assumes "ref \<noteq> []" and "\<forall>c\<in>set ref. is_key_char c"
  shows "match_marker (marker ref @ post) = Some (ref, post)"
proof -
  from assms(2) have "takeWhile is_key_char (ref @ CHR '']'' # CHR '']'' # post) = ref"
    and "dropWhile is_key_char (ref @ CHR '']'' # CHR '']'' # post) = CHR '']'' # CHR '']'' # post"
    by (simp_all add: not_key_char_brackets takeWhile_append2 takeWhile_tail)
  with assms(1) show ?thesis
    by (simp add: match_marker_Some marker_def)
qed

lemma match_marker_before:
  assumes "match_marker (c # pre @ marker ref @ post) = Some (k, rest)"
  shows "\<exists>pre'. rest = pre' @ marker ref @ post"
proof -
  let ?M = "marker ref @ post"
  have M: "?M = CHR ''['' # tl ?M"
    by (simp add: marker_def)
  from assms obtain r where s: "c # pre @ ?M = CHR ''['' # CHR ''['' # r"
    and k: "takeWhile is_key_char r \<noteq> []"
    and d: "dropWhile is_key_char r = CHR '']'' # CHR '']'' # rest"
    by (auto simp: match_marker_Some)
  show ?thesis
  proof (cases pre)
    case Nil
    with s M have "r = tl ?M" by simp
    then have "takeWhile is_key_char r = []"
      by (simp add: marker_def not_key_char_brackets)
    with k show ?thesis by simp
  next
    case (Cons c2 pre2)
    with s have r: "r = pre2 @ ?M" by simp
    show ?thesis
    proof (cases "\<forall>x\<in>set pre2. is_key_char x")
      case True
      then have "dropWhile is_key_char r = dropWhile is_key_char ?M"
        unfolding r by (intro dropWhile_append2) simp
      also have "\<dots> = ?M"
        by (simp add: marker_def not_key_char_brackets)
      finally show ?thesis using d M by (simp add: marker_def)
    next
      case False
      then obtain x where "x \<in> set pre2" "\<not> is_key_char x" by blast
      then have dd: "dropWhile is_key_char r = dropWhile is_key_char pre2 @ ?M"
        unfolding r by (rule dropWhile_append1)
      from False have ne: "dropWhile is_key_char pre2 \<noteq> []" by simp
      then obtain d1 ds where ds: "dropWhile is_key_char pre2 = d1 # ds"
        by (cases "dropWhile is_key_char pre2") auto
      show ?thesis
      proof (cases ds)
        case Nil
        with d dd ds M show ?thesis by (simp add: marker_def)
      next
        case (Cons d2 ds')
        with d dd ds have "rest = ds' @ ?M" by simp
        then show ?thesis by blast
      qed
    qed
  qed
qed


lemma expand_Cons_match:
  "match_marker (c # cs) = Some (ref, rest) \<Longrightarrow>
   expand bib (c # cs) st =
     (case cite bib ref st of
        (out, st') \<Rightarrow> (case expand bib rest st' of (outs, st'') \<Rightarrow> (out @ outs, st'')))"
  by (simp add: expand.simps)

lemma expand_Cons_none:
  "match_marker (c # cs) = None \<Longrightarrow>
   expand bib (c # cs) st = (case expand bib cs st of (outs, st') \<Rightarrow> (c # outs, st'))"
  by (simp add: expand.simps)

lemma map_of_refs_set:
  "map_of (refs_set refs k v) ref =
     (if k = ''__proto__'' \<and> map_of refs k = None then map_of refs ref
      else if ref = k then Some v else map_of refs ref)"
  by (auto simp: refs_set_def update_conv')

lemma cite_keeps:
  "map_of (fst st) ref = Some (js_get bib ref) \<Longrightarrow>
   map_of (fst (snd (cite bib k st))) ref = Some (js_get bib ref)"
  by (cases st) (auto simp: cite_def map_of_refs_set)

lemma cite_found:
  "truthy (js_get bib ref) \<Longrightarrow> ref \<noteq> ''__proto__'' \<Longrightarrow>
   fst (cite bib ref st) = ref_link ref \<and>
   map_of (fst (snd (cite bib ref st))) ref = Some (js_get bib ref)"
  by (cases st) (simp add: cite_def map_of_refs_set)

lemma expand_keeps:
  "map_of (fst st) ref = Some (js_get bib ref) \<Longrightarrow>
   map_of (fst (snd (expand bib s st))) ref = Some (js_get bib ref)"
proof (induction bib s st rule: expand.induct)
  case (1 bib st)
  then show ?case by (simp add: expand.simps)
next
  case (2 bib c cs st)
  show ?case
  proof (cases "match_marker (c # cs)")
    case None
    obtain outs st' where e: "expand bib cs st = (outs, st')" by (cases "expand bib cs st")
    from "2.IH"(1) [OF None "2.prems"] e show ?thesis
      by (simp add: expand_Cons_none [OF None])
  next
    case (Some m)
    obtain k rest where m: "m = (k, rest)" by (cases m)
    obtain out st' where c: "cite bib k st = (out, st')" by (cases "cite bib k st")
    from cite_keeps [OF "2.prems", of k] c have "map_of (fst st') ref = Some (js_get bib ref)"
      by simp
    obtain outs st'' where e: "expand bib rest st' = (outs, st'')" by (cases "expand bib rest st'")
    from "2.IH"(2) [OF Some m [symmetric] c [symmetric] \<open>map_of (fst st') ref = Some (js_get bib ref)\<close>] e
    show ?thesis
      using Some m c by (simp add: expand_Cons_match)
  qed
qed

lemma expand_marker:
  assumes ref: "ref \<noteq> []" "\<forall>c\<in>set ref. is_key_char c"
    and found: "truthy (js_get bib ref)" "ref \<noteq> ''__proto__''"
  shows "\<exists>o1 o3 st'. expand bib (pre @ marker ref @ post) st = (o1 @ ref_link ref @ o3, st') \<and>
           map_of (fst st') ref = Some (js_get bib ref)"
proof (induction "length pre" arbitrary: pre st rule: less_induct)
  case less
  show ?case
  proof (cases pre)
    case Nil
    obtain c cs where M: "marker ref @ post = c # cs"
      by (cases "marker ref @ post") (simp_all add: marker_def)
    from match_marker_here [OF ref, of post] have mm: "match_marker (c # cs) = Some (ref, post)"
      by (simp add: M)
    obtain out st1 where c: "cite bib ref st = (out, st1)" by (cases "cite bib ref st")
    obtain outs st2 where e: "expand bib post st1 = (outs, st2)" by (cases "expand bib post st1")
    from cite_found [OF found, of st] c have out: "out = ref_link ref"
      and "map_of (fst st1) ref = Some (js_get bib ref)"
      by simp_all
    from expand_keeps [OF this(2), of post] e have "map_of (fst st2) ref = Some (js_get bib ref)"
      by simp
    moreover have "expand bib (pre @ marker ref @ post) st = ([] @ ref_link ref @ outs, st2)"
      by (simp add: Nil M expand_Cons_match [OF mm] c e out)
    ultimately show ?thesis by blast
  next
    case (Cons c pre')
    show ?thesis
    proof (cases "match_marker (c # pre' @ marker ref @ post)")
      case None
      from less [of pre' st] Cons obtain o1 o3 st' where
        "expand bib (pre' @ marker ref @ post) st = (o1 @ ref_link ref @ o3, st')"
        "map_of (fst st') ref = Some (js_get bib ref)"
        by auto
      then have "expand bib (pre @ marker ref @ post) st = ((c # o1) @ ref_link ref @ o3, st')"
        by (simp add: Cons expand_Cons_none [OF None])
      with \<open>map_of (fst st') ref = Some (js_get bib ref)\<close> show ?thesis by blast
    next
      case (Some m)
      obtain k rest where m: "match_marker (c # pre' @ marker ref @ post) = Some (k, rest)"
        using Some by (cases m) simp
      from match_marker_before [OF m] obtain pre'' where rest: "rest = pre'' @ marker ref @ post"
        by blast
      from match_marker_shorter [OF m] have "length pre'' < length pre"
        by (simp add: rest Cons)
      obtain out st1 where c: "cite bib k st = (out, st1)" by (cases "cite bib k st")
      from less [OF \<open>length pre'' < length pre\<close>, of st1] obtain o1 o3 st' where
        "expand bib (pre'' @ marker ref @ post) st1 = (o1 @ ref_link ref @ o3, st')"
        "map_of (fst st') ref = Some (js_get bib ref)"
        by auto
      then have "expand bib (pre @ marker ref @ post) st = ((out @ o1) @ ref_link ref @ o3, st')"
        by (simp add: Cons expand_Cons_match [OF m] c rest)
      with \<open>map_of (fst st') ref = Some (js_get bib ref)\<close> show ?thesis by blast
    qed
  qed
qed

lemma is_key_char_simps:
  "is_key_char c = (c \<in> set ''ABCDEFGHIJKLMNOPQRSTUVWXYZabcdefghijklmnopqrstuvwxyz0123456789_-'')"
  by (auto simp: is_key_char_def is_word_def)

lemma example_expand_alpha:
  "expand example_closed ''See [[beta]] and [[rfc9999]].'' ([], []) =
     (''See '' @ ref_link ''beta'' @ '' and [[rfc9999]].'',
      [(''beta'', Own (htmlifyReference
                          \<lparr>author = Some ''Robin <R&D> & Juan'', title = Some ''Beta'',
                           date = Some ''2025-01-01'', url = Some ''https://dasl.ing/beta.html''\<rparr>))],
      [no_entry ''rfc9999''])"
  by (simp add: expand.simps match_marker_def is_key_char_simps cite_def js_get_def example_closed_def
      object_prototype_def refs_set_def marker_def htmlifyReference_def)

lemma example_expand_beta:
  "expand example_closed ''Nothing cited.'' ([], errs) = (''Nothing cited.'', [], errs)"
  by (simp add: expand.simps match_marker_def)

lemma example_build:
  "build example_people Map.empty example_clock example_innerHTML example_specs =
     Some (Inr (example_published, example_errors))"
proof -
  have beta: "resolver (elements example_beta) errs = Some (elements example_beta, errs)" for errs
    by (simp add: resolver_def example_beta_def)
  have a: "getElementById (elements example_alpha) ''abstract''"
    "getElementById (elements example_beta) ''abstract''"
    by (simp_all add: getElementById_def example_alpha_def example_beta_def)
  have h: "example_innerHTML (elements example_beta) = ''Nothing cited.''"
    by (simp add: example_innerHTML_def example_beta_def)
  have hc: "example_innerHTML (e # es) = textContent e" for e es
    by (simp add: example_innerHTML_def)
  have "process_specs example_innerHTML example_closed [] example_specs =
      Some (example_published, example_errors)"
    by (simp add: example_specs_def process_spec_def a example_resolver
        beta h hc example_expand_alpha example_expand_beta references_section_def
        example_published_def example_errors_def)
  then show ?thesis
    by (simp add: build_def example_merge)
qed


lemma htmlifyReference_not_Nil: "htmlifyReference r \<noteq> []"
  by (simp add: htmlifyReference_def)

lemma process_specs_nth:
  "process_specs innerHTML bib errs specs = Some (pubs, errs') \<Longrightarrow>
   length pubs = length specs \<and>
   (\<forall>i<length specs. fst (pubs ! i) = fst (specs ! i) \<and>
      (\<exists>e1 e2. process_spec innerHTML bib e1 (snd (specs ! i)) = Some (snd (pubs ! i), e2)))"
proof (induction specs arbitrary: errs pubs)
  case Nil
  then show ?case by simp
next
  case (Cons sp specs)
  obtain shortname s where sp: "sp = (shortname, s)" by (cases sp)
  from Cons.prems obtain p errs1 where p: "process_spec innerHTML bib errs s = Some (p, errs1)"
    by (auto simp: sp split: option.splits)
  with Cons.prems obtain ps where ps: "process_specs innerHTML bib errs1 specs = Some (ps, errs')"
    and pubs: "pubs = (shortname, p) # ps"
    by (auto simp: sp split: option.splits)
  from Cons.IH [OF ps] have len: "length ps = length specs"
    and rest: "\<forall>i<length specs. fst (ps ! i) = fst (specs ! i) \<and>
      (\<exists>e1 e2. process_spec innerHTML bib e1 (snd (specs ! i)) = Some (snd (ps ! i), e2))"
    by simp_all
  have "fst (pubs ! i) = fst ((sp # specs) ! i) \<and>
      (\<exists>e1 e2. process_spec innerHTML bib e1 (snd ((sp # specs) ! i)) = Some (snd (pubs ! i), e2))"
    if "i < length (sp # specs)" for i
  proof (cases i)
    case 0
    with p show ?thesis by (auto simp: pubs sp)
  next
    case (Suc n)
    with that rest show ?thesis by (simp add: pubs)
  qed
  with len show ?case by (simp add: pubs)
qed

lemma references_section_entry:
  assumes "map_of refs ref = Some v"
  shows "\<exists>entries. references_section refs = Some entries \<and>
           \<lparr>dt_id = ''ref-'' @ ref, dt_text = ''['' @ ref @ '']'', dd_innerHTML = v\<rparr> \<in> set entries"
proof -
  from assms have "ref \<in> set (map fst refs)"
    by (metis map_of_eq_None_iff option.distinct(1) set_map)
  then have ne: "refs \<noteq> []" and mem: "ref \<in> set (sort (map fst refs))"
    by auto
  from mem assms have "\<lparr>dt_id = ''ref-'' @ ref, dt_text = ''['' @ ref @ '']'', dd_innerHTML = v\<rparr>
      \<in> (\<lambda>r. \<lparr>dt_id = ''ref-'' @ r, dt_text = ''['' @ r @ '']'',
                dd_innerHTML = (case map_of refs r of Some v \<Rightarrow> v | None \<Rightarrow> Undefined)\<rparr>)
          ` set (sort (map fst refs))"
    by (intro image_eqI [of _ _ ref]) simp_all
  with ne show ?thesis
    by (simp add: references_section_def)
qed

lemma process_spec_cited:
  assumes run: "process_spec innerHTML bib e1 s = Some (p, e2)"
    and cites: "innerHTML (pub_elements p) = pre @ marker ref @ post"
    and ref: "ref \<noteq> []" "\<forall>c\<in>set ref. is_key_char c"
    and found: "truthy (js_get bib ref)" "ref \<noteq> ''__proto__''"
  shows "(\<exists>o1 o3. pub_html p = o1 @ ref_link ref @ o3) \<and>
         (\<exists>entries. pub_references p = Some entries \<and>
            \<lparr>dt_id = ''ref-'' @ ref, dt_text = ''['' @ ref @ '']'', dd_innerHTML = js_get bib ref\<rparr>
              \<in> set entries)"
proof -
  let ?errs = "if getElementById (elements s) ''abstract'' then e1
               else e1 @ [''Missing abstract in '' @ doc_title s]"
  from run obtain doc errs1 where r: "resolver (elements s) ?errs = Some (doc, errs1)"
    by (auto simp: process_spec_def split: option.splits)
  obtain html refs errs2 where e: "expand bib (innerHTML doc) ([], errs1) = (html, refs, errs2)"
    by (cases "expand bib (innerHTML doc) ([], errs1)")
  from run r e have p: "p = \<lparr>pub_elements = doc, pub_html = html,
      pub_references = references_section refs\<rparr>"
    by (simp add: process_spec_def)
  from cites p have "innerHTML doc = pre @ marker ref @ post" by simp
  with expand_marker [OF ref found, of pre post "([], errs1)"] e
  obtain o1 o3 where "html = o1 @ ref_link ref @ o3" and m: "map_of refs ref = Some (js_get bib ref)"
    by auto
  with references_section_entry [OF m] p show ?thesis by auto
qed

text \<open>
  In a build that returns, the loop that merges the self-citations has run over every
  document of \<open>specs\<close> before the first document is processed, and every document is
  expanded against that one closed bibliography.  So for any two documents A and B of
  \<open>specs\<close>, at any two places, a marker for the short name of B in the content of A is
  replaced by the link to the anchor of B, and the references section of A holds the entry
  of B with the fragment synthesized for B.  This needs the short names to be pairwise
  different and none to be \<open>__proto__\<close>, as the keys of the object \<open>specs\<close> are.
\<close>

lemma cited_document_resolves:
  assumes specs: "distinct (map fst specs)" "''__proto__'' \<notin> set (map fst specs)"
    and run: "build people bibliography clock innerHTML specs = Some (Inr (pubs, errs))"
    and i: "i < length specs" and j: "j < length specs"
    and key: "fst (specs ! j) \<noteq> []" "\<forall>c\<in>set (fst (specs ! j)). is_key_char c"
    and cites: "innerHTML (pub_elements (snd (pubs ! i))) = pre @ marker (fst (specs ! j)) @ post"
  shows "\<exists>closed names.
      merge_self_citations people clock 0 specs bibliography = Inr closed \<and>
      process_specs innerHTML closed [] specs = Some (pubs, errs) \<and>
      author_names people (authors (snd (specs ! j))) = Inr names \<and>
      closed (fst (specs ! j)) =
        Some (htmlifyReference
                \<lparr>author = joinList names, title = Some (doc_title (snd (specs ! j))),
                 date = Some (today (clock j)),
                 url = Some (''https://dasl.ing/'' @ fst (specs ! j) @ ''.html'')\<rparr>) \<and>
      fst (pubs ! i) = fst (specs ! i) \<and>
      (\<exists>o1 o3. pub_html (snd (pubs ! i)) = o1 @ ref_link (fst (specs ! j)) @ o3) \<and>
      (\<exists>entries. pub_references (snd (pubs ! i)) = Some entries \<and>
         \<lparr>dt_id = ''ref-'' @ fst (specs ! j), dt_text = ''['' @ fst (specs ! j) @ '']'',
          dd_innerHTML =
            Own (htmlifyReference
                   \<lparr>author = joinList names, title = Some (doc_title (snd (specs ! j))),
                    date = Some (today (clock j)),
                    url = Some (''https://dasl.ing/'' @ fst (specs ! j) @ ''.html'')\<rparr>)\<rparr>
           \<in> set entries)"
proof -
  from run obtain closed where closed: "merge_self_citations people clock 0 specs bibliography = Inr closed"
    and phase2: "process_specs innerHTML closed [] specs = Some (pubs, errs)"
    by (auto simp: build_def split: sum.splits)
  from merge_self_citations_entry [OF closed specs j] obtain names where
    names: "author_names people (authors (snd (specs ! j))) = Inr names"
    and entry: "closed (fst (specs ! j)) =
        Some (htmlifyReference
                \<lparr>author = joinList names, title = Some (doc_title (snd (specs ! j))),
                 date = Some (today (clock j)),
                 url = Some (''https://dasl.ing/'' @ fst (specs ! j) @ ''.html'')\<rparr>)"
    by auto
  let ?frag = "htmlifyReference
                \<lparr>author = joinList names, title = Some (doc_title (snd (specs ! j))),
                 date = Some (today (clock j)),
                 url = Some (''https://dasl.ing/'' @ fst (specs ! j) @ ''.html'')\<rparr>"
  from entry have get: "js_get closed (fst (specs ! j)) = Own ?frag"
    by (simp add: js_get_def)
  then have found: "truthy (js_get closed (fst (specs ! j)))"
    by (simp add: htmlifyReference_not_Nil)
  from specs(2) j have np: "fst (specs ! j) \<noteq> ''__proto__''"
    by (metis length_map nth_map nth_mem)
  from process_specs_nth [OF phase2] i obtain e1 e2 where
    name: "fst (pubs ! i) = fst (specs ! i)"
    and one: "process_spec innerHTML closed e1 (snd (specs ! i)) = Some (snd (pubs ! i), e2)"
    by blast
  from process_spec_cited [OF one cites key found np]
  have "(\<exists>o1 o3. pub_html (snd (pubs ! i)) = o1 @ ref_link (fst (specs ! j)) @ o3) \<and>
      (\<exists>entries. pub_references (snd (pubs ! i)) = Some entries \<and>
         \<lparr>dt_id = ''ref-'' @ fst (specs ! j), dt_text = ''['' @ fst (specs ! j) @ '']'',
          dd_innerHTML = Own ?frag\<rparr> \<in> set entries)"
    by (simp only: get)
  with closed phase2 names entry name show ?thesis
    by (intro exI [of _ closed] exI [of _ names]) simp
qed

section \<open>The two phases on a directory\<close>

text \<open>
  The keys of \<open>specs\<close> are pairwise different and none is \<open>__proto__\<close>.  A source document
  of the directory is among the documents of the two loops unless its short name is
  \<open>__proto__\<close>; and the loops go through nothing else.
\<close>

lemma map_of_object_set:
  "map_of (object_set obj k v) k' =
     (if k = ''__proto__'' \<and> map_of obj k = None then map_of obj k'
      else if k' = k then Some v else map_of obj k')"
  by (auto simp: object_set_def update_conv')

lemma object_set_distinct: "distinct (map fst obj) \<Longrightarrow> distinct (map fst (object_set obj k v))"
  by (simp add: object_set_def distinct_update)

lemma object_set_proto: "map_of obj ''__proto__'' = None \<Longrightarrow> map_of (object_set obj k v) ''__proto__'' = None"
  by (simp add: map_of_object_set)

lemma fold_object_set_keys:
  "distinct (map fst acc) \<Longrightarrow> map_of acc ''__proto__'' = None \<Longrightarrow>
   distinct (map fst (fold (\<lambda>(f, s) specs. object_set specs (shortname f) s) fs acc)) \<and>
   map_of (fold (\<lambda>(f, s) specs. object_set specs (shortname f) s) fs acc) ''__proto__'' = None"
proof (induction fs arbitrary: acc)
  case Nil
  then show ?case by simp
next
  case (Cons p fs)
  obtain f s where p: "p = (f, s)" by (cases p)
  from Cons.prems have "distinct (map fst (object_set acc (shortname f) s))"
    "map_of (object_set acc (shortname f) s) ''__proto__'' = None"
    by (simp_all add: object_set_distinct object_set_proto)
  from Cons.IH [OF this] show ?case
    by (simp add: p)
qed

lemma fold_object_set_other:
  "k \<notin> set (map (\<lambda>(f, s). shortname f) fs) \<Longrightarrow>
   map_of (fold (\<lambda>(f, s) specs. object_set specs (shortname f) s) fs acc) k = map_of acc k"
proof (induction fs arbitrary: acc)
  case Nil
  then show ?case by simp
next
  case (Cons p fs)
  obtain f s where p: "p = (f, s)" by (cases p)
  from Cons.prems have k: "k \<noteq> shortname f" "k \<notin> set (map (\<lambda>(f, s). shortname f) fs)"
    by (auto simp: p)
  from Cons.IH [OF k(2), of "object_set acc (shortname f) s"] k(1) show ?case
    by (simp add: p map_of_object_set)
qed

lemma fold_object_set_entry:
  "distinct (map (\<lambda>(f, s). shortname f) fs) \<Longrightarrow> (f, s) \<in> set fs \<Longrightarrow>
   shortname f \<noteq> ''__proto__'' \<Longrightarrow>
   map_of (fold (\<lambda>(f, s) specs. object_set specs (shortname f) s) fs acc) (shortname f) = Some s"
proof (induction fs arbitrary: acc)
  case Nil
  then show ?case by simp
next
  case (Cons p fs)
  obtain g t where p: "p = (g, t)" by (cases p)
  from Cons.prems(1) have d: "shortname g \<notin> set (map (\<lambda>(f, s). shortname f) fs)"
    "distinct (map (\<lambda>(f, s). shortname f) fs)"
    by (simp_all add: p)
  show ?case
  proof (cases "(f, s) = (g, t)")
    case True
    then have e: "f = g" "s = t" by simp_all
    from fold_object_set_other [OF d(1), of "object_set acc (shortname g) t"] Cons.prems(3)
    show ?thesis
      by (simp add: p e map_of_object_set)
  next
    case False
    with Cons.prems(2) have "(f, s) \<in> set fs"
      by (auto simp: p)
    from Cons.IH [OF d(2) this Cons.prems(3)] show ?thesis
      by (simp add: p)
  qed
qed

lemma set_object_entries: "set (object_entries obj) = set obj"
  by (auto simp: object_entries_def)

lemma distinct_object_entries:
  assumes "distinct (map fst obj)"
  shows "distinct (map fst (object_entries obj))"
proof -
  from assms have d: "distinct obj" and i: "inj_on fst (set obj)"
    by (simp_all add: distinct_map)
  have "distinct (object_entries obj)"
    using d by (auto simp: object_entries_def)
  moreover from i have "inj_on fst (set (object_entries obj))"
    by (simp add: set_object_entries)
  ultimately show ?thesis
    by (simp add: distinct_map)
qed

lemma shortname_inj:
  assumes "is_src f" "is_src g" "shortname f = shortname g"
  shows "f = g"
proof -
  from assms have t: "take (length f - 9) f = take (length g - 9) g"
    by (simp add: shortname_def)
  from assms have d: "drop (length f - 9) f = drop (length g - 9) g"
    by (simp add: is_src_def)
  have "f = take (length f - 9) f @ drop (length f - 9) f"
    by simp
  also have "\<dots> = take (length g - 9) g @ drop (length g - 9) g"
    by (simp only: t d)
  also have "\<dots> = g"
    by simp
  finally show ?thesis .
qed

lemma load_specs_keys:
  "distinct (map fst (load_specs dir))" "''__proto__'' \<notin> set (map fst (load_specs dir))"
proof -
  let ?obj = "fold (\<lambda>(f, s) specs. object_set specs (shortname f) s) (filter (\<lambda>(f, s). is_src f) dir) []"
  from fold_object_set_keys [of "[]" "filter (\<lambda>(f, s). is_src f) dir"]
  have d: "distinct (map fst ?obj)" and p: "map_of ?obj ''__proto__'' = None"
    by simp_all
  from distinct_object_entries [OF d] show "distinct (map fst (load_specs dir))"
    by (simp add: load_specs_def)
  from p have "''__proto__'' \<notin> fst ` set ?obj"
    by (simp add: map_of_eq_None_iff)
  then show "''__proto__'' \<notin> set (map fst (load_specs dir))"
    by (simp add: load_specs_def set_object_entries)
qed

lemma load_specs_member:
  assumes dir: "distinct (map fst dir)" and f: "(f, s) \<in> set dir" "is_src f"
    and np: "shortname f \<noteq> ''__proto__''"
  shows "(shortname f, s) \<in> set (load_specs dir)"
proof -
  let ?fs = "filter (\<lambda>(f, s). is_src f) dir"
  let ?obj = "fold (\<lambda>(f, s) specs. object_set specs (shortname f) s) ?fs []"
  from dir have "distinct (map fst ?fs)"
    by (rule distinct_map_filter)
  then have d: "distinct ?fs" and i: "inj_on fst (set ?fs)"
    by (simp_all add: distinct_map)
  have "inj_on (\<lambda>(f, s). shortname f) (set ?fs)"
  proof (rule inj_onI)
    fix x y
    assume x: "x \<in> set ?fs" and y: "y \<in> set ?fs"
      and e: "(case x of (f, s) \<Rightarrow> shortname f) = (case y of (f, s) \<Rightarrow> shortname f)"
    from x y have "is_src (fst x)" "is_src (fst y)"
      by auto
    moreover from e have "shortname (fst x) = shortname (fst y)"
      by (simp add: case_prod_beta)
    ultimately have "fst x = fst y"
      by (rule shortname_inj)
    with i x y show "x = y"
      by (auto dest: inj_onD)
  qed
  with d have dk: "distinct (map (\<lambda>(f, s). shortname f) ?fs)"
    by (simp add: distinct_map)
  from f have "(f, s) \<in> set ?fs"
    by simp
  from fold_object_set_entry [OF dk this np, of "[]"] have "map_of ?obj (shortname f) = Some s" .
  then have "(shortname f, s) \<in> set ?obj"
    by (rule map_of_SomeD)
  then show ?thesis
    by (simp add: load_specs_def set_object_entries)
qed

lemma load_specs_source:
  assumes "(k, s) \<in> set (load_specs dir)"
  shows "\<exists>f. (f, s) \<in> set dir \<and> is_src f \<and> shortname f = k"
proof -
  let ?fs = "filter (\<lambda>(f, s). is_src f) dir"
  let ?obj = "fold (\<lambda>(f, s) specs. object_set specs (shortname f) s) ?fs []"
  have step: "map_of (fold (\<lambda>(f, s) specs. object_set specs (shortname f) s) fs acc) k = Some s \<Longrightarrow>
      map_of acc k = Some s \<or> (\<exists>f. (f, s) \<in> set fs \<and> shortname f = k)" for fs acc
  proof (induction fs arbitrary: acc)
    case Nil
    then show ?case by simp
  next
    case (Cons p fs)
    obtain g t where p: "p = (g, t)" by (cases p)
    from Cons.prems have "map_of (fold (\<lambda>(f, s) specs. object_set specs (shortname f) s) fs
        (object_set acc (shortname g) t)) k = Some s"
      by (simp add: p)
    from Cons.IH [OF this] show ?case
    proof
      assume "map_of (object_set acc (shortname g) t) k = Some s"
      then have "map_of acc k = Some s \<or> (k, s) = (shortname g, t)"
        by (auto simp: map_of_object_set split: if_splits)
      then show ?thesis
        by (auto simp: p)
    next
      assume "\<exists>f. (f, s) \<in> set fs \<and> shortname f = k"
      then show ?thesis
        by auto
    qed
  qed
  from fold_object_set_keys [of "[]" ?fs] have "distinct (map fst ?obj)"
    by simp
  moreover from assms have "(k, s) \<in> set ?obj"
    by (simp add: load_specs_def set_object_entries)
  ultimately have "map_of ?obj k = Some s"
    by simp
  from step [OF this] show ?thesis
    by auto
qed

text \<open>
  The closed bibliography holds the entry of every document of \<open>specs\<close> before the first
  marker is expanded.  A marker for the short name of a source document of the directory,
  other than \<open>__proto__\<close>, is replaced by its link in whatever document it stands, and the
  references section there has the entry with the fragment synthesized for the cited
  document.  No marker of \<open>__proto__\<close> ever gets a property of \<open>refs\<close>.
\<close>

lemma build_two_phases:
  "build people bibliography clock innerHTML specs = Some (Inr (pubs, errs)) \<Longrightarrow>
   \<exists>closed. merge_self_citations people clock 0 specs bibliography = Inr closed \<and>
     process_specs innerHTML closed [] specs = Some (pubs, errs)"
  by (auto simp: build_def split: sum.splits)

lemma directory_closure:
  assumes run: "build_directory people bibliography clock innerHTML dir = Some (Inr (pubs, errs))"
  shows "\<exists>closed.
      merge_self_citations people clock 0 (load_specs dir) bibliography = Inr closed \<and>
      process_specs innerHTML closed [] (load_specs dir) = Some (pubs, errs) \<and>
      (\<forall>j<length (load_specs dir). \<exists>names.
         author_names people (authors (snd (load_specs dir ! j))) = Inr names \<and>
         closed (fst (load_specs dir ! j)) =
           Some (htmlifyReference
                   \<lparr>author = joinList names, title = Some (doc_title (snd (load_specs dir ! j))),
                    date = Some (today (clock j)),
                    url = Some (''https://dasl.ing/'' @ fst (load_specs dir ! j) @ ''.html'')\<rparr>))"
proof -
  from run have "build people bibliography clock innerHTML (load_specs dir) = Some (Inr (pubs, errs))"
    by (simp add: build_directory_def)
  from build_two_phases [OF this] obtain closed where
    closed: "merge_self_citations people clock 0 (load_specs dir) bibliography = Inr closed"
    and phase2: "process_specs innerHTML closed [] (load_specs dir) = Some (pubs, errs)"
    by blast
  have "\<exists>names.
         author_names people (authors (snd (load_specs dir ! j))) = Inr names \<and>
         closed (fst (load_specs dir ! j)) =
           Some (htmlifyReference
                   \<lparr>author = joinList names, title = Some (doc_title (snd (load_specs dir ! j))),
                    date = Some (today (clock j)),
                    url = Some (''https://dasl.ing/'' @ fst (load_specs dir ! j) @ ''.html'')\<rparr>)"
    if "j < length (load_specs dir)" for j
    using merge_self_citations_entry [OF closed load_specs_keys that] by simp
  with closed phase2 show ?thesis
    by blast
qed

lemma directory_citation_resolves:
  assumes dir: "distinct (map fst dir)"
    and run: "build_directory people bibliography clock innerHTML dir = Some (Inr (pubs, errs))"
    and b: "(f, s) \<in> set dir" "is_src f" "shortname f \<noteq> ''__proto__''"
    and key: "shortname f \<noteq> []" "\<forall>c\<in>set (shortname f). is_key_char c"
    and i: "i < length pubs"
    and cites: "innerHTML (pub_elements (snd (pubs ! i))) = pre @ marker (shortname f) @ post"
  shows "\<exists>closed names n.
      merge_self_citations people clock 0 (load_specs dir) bibliography = Inr closed \<and>
      process_specs innerHTML closed [] (load_specs dir) = Some (pubs, errs) \<and>
      author_names people (authors s) = Inr names \<and>
      closed (shortname f) =
        Some (htmlifyReference
                \<lparr>author = joinList names, title = Some (doc_title s), date = Some (today (clock n)),
                 url = Some (''https://dasl.ing/'' @ shortname f @ ''.html'')\<rparr>) \<and>
      (\<exists>o1 o3. pub_html (snd (pubs ! i)) = o1 @ ref_link (shortname f) @ o3) \<and>
      (\<exists>entries. pub_references (snd (pubs ! i)) = Some entries \<and>
         \<lparr>dt_id = ''ref-'' @ shortname f, dt_text = ''['' @ shortname f @ '']'',
          dd_innerHTML =
            Own (htmlifyReference
                   \<lparr>author = joinList names, title = Some (doc_title s),
                    date = Some (today (clock n)),
                    url = Some (''https://dasl.ing/'' @ shortname f @ ''.html'')\<rparr>)\<rparr>
           \<in> set entries)"
proof -
  let ?specs = "load_specs dir"
  from load_specs_member [OF dir b] obtain j where j: "j < length ?specs"
    and sj: "?specs ! j = (shortname f, s)"
    by (auto simp: in_set_conv_nth)
  from run have build: "build people bibliography clock innerHTML ?specs = Some (Inr (pubs, errs))"
    by (simp add: build_directory_def)
  from build_two_phases [OF build] obtain closed where
    phase2: "process_specs innerHTML closed [] ?specs = Some (pubs, errs)"
    by blast
  from process_specs_nth [OF phase2] have "length pubs = length ?specs"
    by simp
  with i have i': "i < length ?specs"
    by simp
  from key sj have key': "fst (?specs ! j) \<noteq> []" "\<forall>c\<in>set (fst (?specs ! j)). is_key_char c"
    by simp_all
  from cites sj have cites': "innerHTML (pub_elements (snd (pubs ! i))) = pre @ marker (fst (?specs ! j)) @ post"
    by simp
  from cited_document_resolves [OF load_specs_keys build i' j key' cites'] show ?thesis
    unfolding sj fst_conv snd_conv by blast
qed

lemma expand_proto:
  "map_of (fst st) ''__proto__'' = None \<Longrightarrow>
   map_of (fst (snd (expand bib s st))) ''__proto__'' = None"
proof (induction bib s st rule: expand.induct)
  case (1 bib st)
  then show ?case by (simp add: expand.simps)
next
  case (2 bib c cs st)
  show ?case
  proof (cases "match_marker (c # cs)")
    case None
    obtain outs st' where e: "expand bib cs st = (outs, st')" by (cases "expand bib cs st")
    from "2.IH"(1) [OF None "2.prems"] e show ?thesis
      by (simp add: expand_Cons_none [OF None])
  next
    case (Some m)
    obtain k rest where m: "m = (k, rest)" by (cases m)
    obtain out st' where c: "cite bib k st = (out, st')" by (cases "cite bib k st")
    from "2.prems" c have n: "map_of (fst st') ''__proto__'' = None"
      by (cases st) (auto simp: cite_def map_of_refs_set split: if_splits)
    obtain outs st'' where e: "expand bib rest st' = (outs, st'')" by (cases "expand bib rest st'")
    from "2.IH"(2) [OF Some m [symmetric] c [symmetric] n] e
    show ?thesis
      using Some m c by (simp add: expand_Cons_match)
  qed
qed

lemma example_load_specs:
  "load_specs example_directory = [(''zeta'', example_zeta), (''beta'', example_beta)]"
proof -
  have n: "\<not> is_array_index ''zeta''" "\<not> is_array_index ''beta''"
    by (simp_all add: is_array_index_def read_nat_def digit_of_def show_nat_small)
  show ?thesis
    by (simp add: load_specs_def example_directory_def is_src_def shortname_def object_set_def
        object_entries_def n)
qed

text \<open>
  C1: the self-citation of a document is merged only if the document became a property of
  \<open>specs\<close>, and \<open>specs[shortname] = \<dots>\<close> stores none for the short name \<open>__proto__\<close>.  In
  the build of the example directory, the two loops go through \<open>zeta\<close> and \<open>beta\<close> only: the
  document of \<open>__proto__.src.html\<close> is not published, and the closed bibliography has the
  entries of \<open>zeta\<close> and \<open>beta\<close> and none for it.  In \<open>zeta\<close>, processed first, the marker of
  \<open>beta\<close> becomes a link and the references section has the entry synthesized for \<open>beta\<close>,
  which is processed later.  The marker of \<open>__proto__\<close> becomes a link to \<open>#ref-__proto__\<close>
  as well, since \<open>bibliography[ref]\<close> reads the inherited member, but the references section
  has no entry for it and no error is logged.
\<close>

theorem proto_document_dropped:
  "load_specs example_directory = [(''zeta'', example_zeta), (''beta'', example_beta)] \<and>
   merge_self_citations example_people example_clock 0 (load_specs example_directory) Map.empty =
     Inr [''zeta'' \<mapsto> htmlifyReference \<lparr>author = Some ''Juan'', title = Some ''Zeta'',
            date = Some ''2024-12-31'', url = Some ''https://dasl.ing/zeta.html''\<rparr>,
          ''beta'' \<mapsto> htmlifyReference \<lparr>author = Some ''Robin <R&D> & Juan'', title = Some ''Beta'',
            date = Some ''2025-01-01'', url = Some ''https://dasl.ing/beta.html''\<rparr>] \<and>
   build_directory example_people Map.empty example_clock example_innerHTML example_directory =
     Some (Inr ([(''zeta'',
                  \<lparr>pub_elements = elements example_zeta,
                   pub_html =
                     ''See [<a href='' @ [CHR 0x22] @ ''#ref-beta'' @ [CHR 0x22] @ '' class=''
                       @ [CHR 0x22] @ ''ref'' @ [CHR 0x22] @ ''>beta</a>] and [<a href=''
                       @ [CHR 0x22] @ ''#ref-__proto__'' @ [CHR 0x22] @ '' class='' @ [CHR 0x22]
                       @ ''ref'' @ [CHR 0x22] @ ''>__proto__</a>].'',
                   pub_references =
                     Some [\<lparr>dt_id = ''ref-beta'', dt_text = ''[beta]'',
                            dd_innerHTML =
                              Own (htmlifyReference
                                     \<lparr>author = Some ''Robin <R&D> & Juan'', title = Some ''Beta'',
                                      date = Some ''2025-01-01'',
                                      url = Some ''https://dasl.ing/beta.html''\<rparr>)\<rparr>]\<rparr>),
                 (''beta'',
                  \<lparr>pub_elements = elements example_beta, pub_html = ''Nothing cited.'',
                   pub_references = None\<rparr>)],
                []))"
proof -
  let ?z = "htmlifyReference \<lparr>author = Some ''Juan'', title = Some ''Zeta'',
        date = Some ''2024-12-31'', url = Some ''https://dasl.ing/zeta.html''\<rparr>"
  let ?b = "htmlifyReference \<lparr>author = Some ''Robin <R&D> & Juan'', title = Some ''Beta'',
        date = Some ''2025-01-01'', url = Some ''https://dasl.ing/beta.html''\<rparr>"
  let ?closed = "[''zeta'' \<mapsto> ?z, ''beta'' \<mapsto> ?b]"
  let ?specs = "[(''zeta'', example_zeta), (''beta'', example_beta)]"
  have m: "merge_self_citations example_people example_clock 0 ?specs Map.empty = Inr ?closed"
    by (simp add: example_people_def example_zeta_def example_beta_def author_name_def
        js_get_def js_set_def or_empty_def example_today)
  have nb: "?b \<noteq> []"
    by (rule htmlifyReference_not_Nil)
  have xz: "expand ?closed ''See [[beta]] and [[__proto__]].'' ([], []) =
      (''See '' @ ref_link ''beta'' @ '' and '' @ ref_link ''__proto__'' @ ''.'',
       [(''beta'', Own ?b)], [])"
    by (simp add: expand.simps match_marker_def is_key_char_simps cite_def js_get_def
        object_prototype_def refs_set_def marker_def nb)
  have xb: "expand ?closed ''Nothing cited.'' ([], errs) = (''Nothing cited.'', [], errs)" for errs
    by (simp add: expand.simps match_marker_def)
  have a: "getElementById (elements example_zeta) ''abstract''"
    "getElementById (elements example_beta) ''abstract''"
    by (simp_all add: getElementById_def example_zeta_def example_beta_def)
  have r: "resolver (elements example_zeta) errs = Some (elements example_zeta, errs)"
    "resolver (elements example_beta) errs = Some (elements example_beta, errs)" for errs
    by (simp_all add: resolver_def example_zeta_def example_beta_def)
  have h: "example_innerHTML (elements example_zeta) = ''See [[beta]] and [[__proto__]].''"
    "example_innerHTML (elements example_beta) = ''Nothing cited.''"
    by (simp_all add: example_innerHTML_def example_zeta_def example_beta_def)
  have "process_specs example_innerHTML ?closed [] ?specs =
     Some ([(''zeta'',
                  \<lparr>pub_elements = elements example_zeta,
                   pub_html = ''See '' @ ref_link ''beta'' @ '' and '' @ ref_link ''__proto__'' @ ''.'',
                   pub_references =
                     Some [\<lparr>dt_id = ''ref-beta'', dt_text = ''[beta]'', dd_innerHTML = Own ?b\<rparr>]\<rparr>),
                 (''beta'',
                  \<lparr>pub_elements = elements example_beta, pub_html = ''Nothing cited.'',
                   pub_references = None\<rparr>)],
                [])"
    by (simp add: process_spec_def a r h xz xb references_section_def)
  then have "build_directory example_people Map.empty example_clock example_innerHTML example_directory =
     Some (Inr ([(''zeta'',
                  \<lparr>pub_elements = elements example_zeta,
                   pub_html = ''See '' @ ref_link ''beta'' @ '' and '' @ ref_link ''__proto__'' @ ''.'',
                   pub_references =
                     Some [\<lparr>dt_id = ''ref-beta'', dt_text = ''[beta]'', dd_innerHTML = Own ?b\<rparr>]\<rparr>),
                 (''beta'',
                  \<lparr>pub_elements = elements example_beta, pub_html = ''Nothing cited.'',
                   pub_references = None\<rparr>)],
                []))"
    unfolding build_directory_def example_load_specs build_def m by simp
  with m show ?thesis
    by (simp add: example_load_specs ref_link_def quote_def)
qed

section \<open>Markers whose key is not found\<close>

text \<open>
  The callback takes a key for missing when \<open>bibliography[ref]\<close> is falsy.  For such a key
  the error is logged, the marker stays in the output, the scan goes on to the end of the
  text, and \<open>refs\<close> gets no property of that name, so the references section has no entry
  for it.  No error stops the loop over the documents.
\<close>

lemma cite_not_found:
  "\<not> truthy (js_get bib ref) \<Longrightarrow> cite bib ref (refs, errs) = (marker ref, refs, errs @ [no_entry ref])"
  by (simp add: cite_def)

lemma cite_keeps_None:
  "\<not> truthy (js_get bib ref) \<Longrightarrow> map_of (fst st) ref = None \<Longrightarrow>
   map_of (fst (snd (cite bib k st))) ref = None"
  by (cases st) (auto simp: cite_def map_of_refs_set)

lemma cite_errors_mono: "e \<in> set (snd st) \<Longrightarrow> e \<in> set (snd (snd (cite bib k st)))"
  by (cases st) (auto simp: cite_def)

lemma expand_keeps_None:
  "\<not> truthy (js_get bib ref) \<Longrightarrow> map_of (fst st) ref = None \<Longrightarrow>
   map_of (fst (snd (expand bib s st))) ref = None"
proof (induction bib s st rule: expand.induct)
  case (1 bib st)
  then show ?case by (simp add: expand.simps)
next
  case (2 bib c cs st)
  show ?case
  proof (cases "match_marker (c # cs)")
    case None
    obtain outs st' where e: "expand bib cs st = (outs, st')" by (cases "expand bib cs st")
    from "2.IH"(1) [OF None "2.prems"] e show ?thesis
      by (simp add: expand_Cons_none [OF None])
  next
    case (Some m)
    obtain k rest where m: "m = (k, rest)" by (cases m)
    obtain out st' where c: "cite bib k st = (out, st')" by (cases "cite bib k st")
    from cite_keeps_None [OF "2.prems", of k] c have n: "map_of (fst st') ref = None"
      by simp
    obtain outs st'' where e: "expand bib rest st' = (outs, st'')" by (cases "expand bib rest st'")
    from "2.IH"(2) [OF Some m [symmetric] c [symmetric] "2.prems"(1) n] e
    show ?thesis
      using Some m c by (simp add: expand_Cons_match)
  qed
qed

lemma expand_errors_mono: "e \<in> set (snd st) \<Longrightarrow> e \<in> set (snd (snd (expand bib s st)))"
proof (induction bib s st rule: expand.induct)
  case (1 bib st)
  then show ?case by (simp add: expand.simps)
next
  case (2 bib c cs st)
  show ?case
  proof (cases "match_marker (c # cs)")
    case None
    obtain outs st' where x: "expand bib cs st = (outs, st')" by (cases "expand bib cs st")
    from "2.IH"(1) [OF None "2.prems"] x show ?thesis
      by (simp add: expand_Cons_none [OF None])
  next
    case (Some m)
    obtain k rest where m: "m = (k, rest)" by (cases m)
    obtain out st' where c: "cite bib k st = (out, st')" by (cases "cite bib k st")
    from cite_errors_mono [OF "2.prems", of bib k] c have n: "e \<in> set (snd st')"
      by simp
    obtain outs st'' where x: "expand bib rest st' = (outs, st'')" by (cases "expand bib rest st'")
    from "2.IH"(2) [OF Some m [symmetric] c [symmetric] n] x
    show ?thesis
      using Some m c by (simp add: expand_Cons_match)
  qed
qed

lemma expand_unresolved:
  assumes ref: "ref \<noteq> []" "\<forall>c\<in>set ref. is_key_char c"
    and absent: "\<not> truthy (js_get bib ref)"
  shows "map_of (fst st) ref = None \<Longrightarrow>
         \<exists>o1 o3 st'. expand bib (pre @ marker ref @ post) st = (o1 @ marker ref @ o3, st') \<and>
           no_entry ref \<in> set (snd st') \<and> map_of (fst st') ref = None"
proof (induction "length pre" arbitrary: pre st rule: less_induct)
  case less
  show ?case
  proof (cases pre)
    case Nil
    obtain c cs where M: "marker ref @ post = c # cs"
      by (cases "marker ref @ post") (simp_all add: marker_def)
    from match_marker_here [OF ref, of post] have mm: "match_marker (c # cs) = Some (ref, post)"
      by (simp add: M)
    obtain refs errs where st: "st = (refs, errs)" by (cases st)
    have c: "cite bib ref st = (marker ref, refs, errs @ [no_entry ref])"
      unfolding st by (rule cite_not_found [OF absent])
    obtain outs st2 where e: "expand bib post (refs, errs @ [no_entry ref]) = (outs, st2)"
      by (cases "expand bib post (refs, errs @ [no_entry ref])")
    from less.prems st have "map_of (fst (refs, errs @ [no_entry ref])) ref = None" by simp
    from expand_keeps_None [OF absent this, of post] e have 1: "map_of (fst st2) ref = None"
      by simp
    have "no_entry ref \<in> set (snd (refs, errs @ [no_entry ref]))" by simp
    from expand_errors_mono [OF this, of bib post] e have 2: "no_entry ref \<in> set (snd st2)"
      by simp
    have "expand bib (pre @ marker ref @ post) st = ([] @ marker ref @ outs, st2)"
      by (simp add: Nil M expand_Cons_match [OF mm] c e)
    with 1 2 show ?thesis by blast
  next
    case (Cons c pre')
    show ?thesis
    proof (cases "match_marker (c # pre' @ marker ref @ post)")
      case None
      from less(1) [of pre' st] less.prems Cons obtain o1 o3 st' where
        "expand bib (pre' @ marker ref @ post) st = (o1 @ marker ref @ o3, st')"
        and r: "no_entry ref \<in> set (snd st') \<and> map_of (fst st') ref = None"
        by auto
      then have "expand bib (pre @ marker ref @ post) st = ((c # o1) @ marker ref @ o3, st')"
        by (simp add: Cons expand_Cons_none [OF None])
      with r show ?thesis by blast
    next
      case (Some m)
      obtain k rest where m: "match_marker (c # pre' @ marker ref @ post) = Some (k, rest)"
        using Some by (cases m) simp
      from match_marker_before [OF m] obtain pre'' where rest: "rest = pre'' @ marker ref @ post"
        by blast
      from match_marker_shorter [OF m] have shorter: "length pre'' < length pre"
        by (simp add: rest Cons)
      obtain out st1 where c: "cite bib k st = (out, st1)" by (cases "cite bib k st")
      from cite_keeps_None [OF absent less.prems, of k] c have "map_of (fst st1) ref = None"
        by simp
      from less(1) [OF shorter this] obtain o1 o3 st' where
        "expand bib (pre'' @ marker ref @ post) st1 = (o1 @ marker ref @ o3, st')"
        and r: "no_entry ref \<in> set (snd st') \<and> map_of (fst st') ref = None"
        by auto
      then have "expand bib (pre @ marker ref @ post) st = ((out @ o1) @ marker ref @ o3, st')"
        by (simp add: Cons expand_Cons_match [OF m] c rest)
      with r show ?thesis by blast
    qed
  qed
qed

lemma references_section_no_entry:
  "map_of refs ref = None \<Longrightarrow> references_section refs = Some entries \<Longrightarrow>
   ''ref-'' @ ref \<notin> dt_id ` set entries"
proof -
  assume n: "map_of refs ref = None" and s: "references_section refs = Some entries"
  from n have "ref \<notin> set (map fst refs)"
    by (simp add: map_of_eq_None_iff)
  moreover from s have "entries = map (\<lambda>r. \<lparr>dt_id = ''ref-'' @ r, dt_text = ''['' @ r @ '']'',
      dd_innerHTML = (case map_of refs r of Some v \<Rightarrow> v | None \<Rightarrow> Undefined)\<rparr>) (sort (map fst refs))"
    by (simp add: references_section_def split: if_splits)
  then have "dt_id ` set entries = (\<lambda>r. ''ref-'' @ r) ` set (sort (map fst refs))"
    by (simp add: image_image del: set_sort)
  then have "dt_id ` set entries = (\<lambda>r. ''ref-'' @ r) ` set (map fst refs)"
    by simp
  ultimately show ?thesis by auto
qed

lemma js_get_absent:
  "bib ref = None \<Longrightarrow> ref \<notin> set object_prototype \<Longrightarrow> \<not> truthy (js_get bib ref)"
  by (simp add: js_get_def)

lemma process_spec_returns: "\<exists>p e2. process_spec innerHTML bib e1 s = Some (p, e2)"
proof -
  let ?errs = "if getElementById (elements s) ''abstract'' then e1
               else e1 @ [''Missing abstract in '' @ doc_title s]"
  from resolver_frame [of "elements s" ?errs] obtain doc errs1 where
    r: "resolver (elements s) ?errs = Some (doc, errs1)"
    by blast
  obtain html refs errs2 where x: "expand bib (innerHTML doc) ([], errs1) = (html, refs, errs2)"
    by (cases "expand bib (innerHTML doc) ([], errs1)")
  show ?thesis
    by (simp add: process_spec_def r x)
qed

lemma process_specs_returns: "\<exists>pubs e2. process_specs innerHTML bib e1 specs = Some (pubs, e2)"
proof (induction specs arbitrary: e1)
  case Nil
  show ?case by simp
next
  case (Cons sp specs)
  obtain shortname s where sp: "sp = (shortname, s)" by (cases sp)
  from process_spec_returns [of innerHTML bib e1 s] obtain p e2 where
    p: "process_spec innerHTML bib e1 s = Some (p, e2)"
    by blast
  from Cons [of e2] obtain pubs e3 where "process_specs innerHTML bib e2 specs = Some (pubs, e3)"
    by blast
  with p show ?case
    by (simp add: sp)
qed

lemma process_spec_unresolved:
  assumes run: "process_spec innerHTML bib e1 s = Some (p, e2)"
    and cites: "innerHTML (pub_elements p) = pre @ marker ref @ post"
    and ref: "ref \<noteq> []" "\<forall>c\<in>set ref. is_key_char c"
    and absent: "\<not> truthy (js_get bib ref)"
  shows "(\<exists>o1 o3. pub_html p = o1 @ marker ref @ o3) \<and> no_entry ref \<in> set e2 \<and>
         (\<forall>entries. pub_references p = Some entries \<longrightarrow> ''ref-'' @ ref \<notin> dt_id ` set entries)"
proof -
  let ?errs = "if getElementById (elements s) ''abstract'' then e1
               else e1 @ [''Missing abstract in '' @ doc_title s]"
  from run obtain doc errs1 where r: "resolver (elements s) ?errs = Some (doc, errs1)"
    by (auto simp: process_spec_def split: option.splits)
  have "map_of (fst ([], errs1)) ref = None"
    by simp
  from expand_unresolved [OF ref absent this, of pre post] obtain o1 o3 st' where
    x: "expand bib (pre @ marker ref @ post) ([], errs1) = (o1 @ marker ref @ o3, st')"
    and e: "no_entry ref \<in> set (snd st')" and n: "map_of (fst st') ref = None"
    by blast
  obtain refs errs2 where st': "st' = (refs, errs2)" by (cases st')
  from run r have "pub_elements p = doc"
    by (auto simp: process_spec_def split: prod.splits)
  with cites have c: "innerHTML doc = pre @ marker ref @ post"
    by simp
  from run have p: "p = \<lparr>pub_elements = doc, pub_html = o1 @ marker ref @ o3,
      pub_references = references_section refs\<rparr>" and e2: "e2 = errs2"
    by (simp_all add: process_spec_def r c x st')
  from n have "map_of refs ref = None"
    by (simp add: st')
  from references_section_no_entry [OF this] p
  have "\<forall>entries. pub_references p = Some entries \<longrightarrow> ''ref-'' @ ref \<notin> dt_id ` set entries"
    by simp
  moreover from p have "\<exists>a b. pub_html p = a @ marker ref @ b"
    by auto
  moreover from e have "no_entry ref \<in> set e2"
    by (simp add: e2 st')
  ultimately show ?thesis by blast
qed

text \<open>
  C4: the test \<open>!bibliography[ref]\<close> also reads the members that the bibliography inherits
  from \<open>Object.prototype\<close>, so a key that the store does not hold is not always taken for
  missing.  In the build of \<open>gamma\<close> alone, on an empty bibliography file, the closed store
  holds the one key \<open>gamma\<close>.  The marker of \<open>rfc9999\<close> is handled as a missing key: the
  error is logged and the marker stays.  The marker of \<open>constructor\<close>, which the store does
  not hold either, logs no error, is replaced by a link, and gets an entry in the references
  section, whose definition is the inherited member.
\<close>

theorem inherited_key_taken_for_entry:
  "build example_people Map.empty example_clock example_innerHTML [(''gamma'', example_gamma)] =
     Some (Inr ([(''gamma'',
                  \<lparr>pub_elements = elements example_gamma,
                   pub_html = ''See '' @ ref_link ''constructor'' @ '' and [[rfc9999]].'',
                   pub_references =
                     Some [\<lparr>dt_id = ''ref-constructor'', dt_text = ''[constructor]'',
                            dd_innerHTML = Member ''constructor''\<rparr>]\<rparr>)],
                [no_entry ''rfc9999'']))"
proof -
  let ?closed = "[''gamma'' \<mapsto> htmlifyReference \<lparr>author = Some ''Juan'', title = Some ''Gamma'',
        date = Some ''2024-12-31'', url = Some ''https://dasl.ing/gamma.html''\<rparr>]"
  have m: "merge_self_citations example_people example_clock 0 [(''gamma'', example_gamma)] Map.empty
      = Inr ?closed"
    by (simp add: example_people_def example_gamma_def author_name_def js_get_def js_set_def
        or_empty_def example_today)
  have x: "expand ?closed ''See [[constructor]] and [[rfc9999]].'' ([], []) =
      (''See '' @ ref_link ''constructor'' @ '' and [[rfc9999]].'',
       [(''constructor'', Member ''constructor'')], [no_entry ''rfc9999''])"
    by (simp add: expand.simps match_marker_def is_key_char_simps cite_def js_get_def
        object_prototype_def refs_set_def marker_def)
  have a: "getElementById (elements example_gamma) ''abstract''"
    by (simp add: getElementById_def example_gamma_def)
  have r: "resolver (elements example_gamma) errs = Some (elements example_gamma, errs)" for errs
    by (simp add: resolver_def example_gamma_def)
  have h: "example_innerHTML (elements example_gamma) = ''See [[constructor]] and [[rfc9999]].''"
    by (simp add: example_innerHTML_def example_gamma_def)
  have "process_specs example_innerHTML ?closed [] [(''gamma'', example_gamma)] =
      Some ([(''gamma'',
                  \<lparr>pub_elements = elements example_gamma,
                   pub_html = ''See '' @ ref_link ''constructor'' @ '' and [[rfc9999]].'',
                   pub_references =
                     Some [\<lparr>dt_id = ''ref-constructor'', dt_text = ''[constructor]'',
                            dd_innerHTML = Member ''constructor''\<rparr>]\<rparr>)],
                [no_entry ''rfc9999''])"
    by (simp add: process_spec_def a r h x references_section_def)
  then show ?thesis
    unfolding build_def m by simp
qed

section \<open>The references section\<close>

text \<open>
  The section is there exactly when \<open>refs\<close> has a property.  Its entries follow the sorted
  keys; each term has the identifier \<open>ref-\<close> and the key, and the text of the key in brackets;
  each definition is what \<open>refs\<close> holds for the key.
\<close>

lemma references_section_None: "references_section refs = None \<longleftrightarrow> refs = []"
  by (simp add: references_section_def)

lemma references_section_sorted:
  assumes "references_section refs = Some entries"
  shows "map dt_id entries = map (\<lambda>r. ''ref-'' @ r) (sort (map fst refs))"
    and "map dt_text entries = map (\<lambda>r. ''['' @ r @ '']'') (sort (map fst refs))"
    and "map dd_innerHTML entries =
           map (\<lambda>r. case map_of refs r of Some v \<Rightarrow> v | None \<Rightarrow> Undefined) (sort (map fst refs))"
    and "sorted (sort (map fst refs))"
proof -
  from assms have e: "entries = map (\<lambda>r. \<lparr>dt_id = ''ref-'' @ r, dt_text = ''['' @ r @ '']'',
      dd_innerHTML = (case map_of refs r of Some v \<Rightarrow> v | None \<Rightarrow> Undefined)\<rparr>) (sort (map fst refs))"
    by (simp add: references_section_def split: if_splits)
  show "map dt_id entries = map (\<lambda>r. ''ref-'' @ r) (sort (map fst refs))"
    unfolding e by (simp add: comp_def)
  show "map dt_text entries = map (\<lambda>r. ''['' @ r @ '']'') (sort (map fst refs))"
    unfolding e by (simp add: comp_def)
  show "map dd_innerHTML entries =
      map (\<lambda>r. case map_of refs r of Some v \<Rightarrow> v | None \<Rightarrow> Undefined) (sort (map fst refs))"
    unfolding e by (simp add: comp_def)
  show "sorted (sort (map fst refs))"
    by simp
qed

text \<open>
  C5: the same read of inherited members shows in the references section.  In the build of
  \<open>delta\<close> and \<open>epsilon\<close> on an empty bibliography file, the marker of \<open>__proto__\<close> in
  \<open>delta\<close> is replaced by a link to \<open>#ref-__proto__\<close>, but the assignment
  \<open>refs[ref] = bibliography[ref]\<close> stores no property under that name, and \<open>delta\<close> gets no
  references section.  In \<open>epsilon\<close> the section has an entry for \<open>valueOf\<close>, a key that the
  store does not hold, and its definition is the inherited member, not a stored fragment; the
  entry of \<open>epsilon\<close> itself, sorted before it, has the stored fragment.
\<close>

theorem references_of_inherited_keys:
  "build example_people Map.empty example_clock example_innerHTML
     [(''delta'', example_delta), (''epsilon'', example_epsilon)] =
     Some (Inr ([(''delta'',
                  \<lparr>pub_elements = elements example_delta,
                   pub_html = ''See '' @ ref_link ''__proto__'' @ ''.'',
                   pub_references = None\<rparr>),
                 (''epsilon'',
                  \<lparr>pub_elements = elements example_epsilon,
                   pub_html = ''See '' @ ref_link ''valueOf'' @ '' and '' @ ref_link ''epsilon'' @ ''.'',
                   pub_references =
                     Some [\<lparr>dt_id = ''ref-epsilon'', dt_text = ''[epsilon]'',
                            dd_innerHTML =
                              Own (htmlifyReference
                                     \<lparr>author = Some ''Juan'', title = Some ''Epsilon'',
                                      date = Some ''2025-01-01'',
                                      url = Some ''https://dasl.ing/epsilon.html''\<rparr>)\<rparr>,
                           \<lparr>dt_id = ''ref-valueOf'', dt_text = ''[valueOf]'',
                            dd_innerHTML = Member ''valueOf''\<rparr>]\<rparr>)],
                []))"
proof -
  let ?d = "htmlifyReference \<lparr>author = Some ''Juan'', title = Some ''Delta'',
        date = Some ''2024-12-31'', url = Some ''https://dasl.ing/delta.html''\<rparr>"
  let ?e = "htmlifyReference \<lparr>author = Some ''Juan'', title = Some ''Epsilon'',
        date = Some ''2025-01-01'', url = Some ''https://dasl.ing/epsilon.html''\<rparr>"
  let ?closed = "[''delta'' \<mapsto> ?d, ''epsilon'' \<mapsto> ?e]"
  have m: "merge_self_citations example_people example_clock 0
      [(''delta'', example_delta), (''epsilon'', example_epsilon)] Map.empty = Inr ?closed"
    by (simp add: example_people_def example_delta_def example_epsilon_def author_name_def
        js_get_def js_set_def or_empty_def example_today)
  have ne: "?e \<noteq> []"
    by (rule htmlifyReference_not_Nil)
  have xd: "expand ?closed ''See [[__proto__]].'' ([], []) =
      (''See '' @ ref_link ''__proto__'' @ ''.'', [], [])"
    by (simp add: expand.simps match_marker_def is_key_char_simps cite_def js_get_def
        object_prototype_def refs_set_def marker_def)
  have xe: "expand ?closed ''See [[valueOf]] and [[epsilon]].'' ([], []) =
      (''See '' @ ref_link ''valueOf'' @ '' and '' @ ref_link ''epsilon'' @ ''.'',
       [(''valueOf'', Member ''valueOf''), (''epsilon'', Own ?e)], [])"
    by (simp add: expand.simps match_marker_def is_key_char_simps cite_def js_get_def
        object_prototype_def refs_set_def marker_def ne)
  have a: "getElementById (elements example_delta) ''abstract''"
    "getElementById (elements example_epsilon) ''abstract''"
    by (simp_all add: getElementById_def example_delta_def example_epsilon_def)
  have r: "resolver (elements example_delta) errs = Some (elements example_delta, errs)"
    "resolver (elements example_epsilon) errs = Some (elements example_epsilon, errs)" for errs
    by (simp_all add: resolver_def example_delta_def example_epsilon_def)
  have h: "example_innerHTML (elements example_delta) = ''See [[__proto__]].''"
    "example_innerHTML (elements example_epsilon) = ''See [[valueOf]] and [[epsilon]].''"
    by (simp_all add: example_innerHTML_def example_delta_def example_epsilon_def)
  have s: "sort [''valueOf'', ''epsilon''] = [''epsilon'', ''valueOf'']"
    by (simp add: less_eq_char_def less_char_def)
  have "process_specs example_innerHTML ?closed []
      [(''delta'', example_delta), (''epsilon'', example_epsilon)] =
     Some ([(''delta'',
                  \<lparr>pub_elements = elements example_delta,
                   pub_html = ''See '' @ ref_link ''__proto__'' @ ''.'',
                   pub_references = None\<rparr>),
                 (''epsilon'',
                  \<lparr>pub_elements = elements example_epsilon,
                   pub_html = ''See '' @ ref_link ''valueOf'' @ '' and '' @ ref_link ''epsilon'' @ ''.'',
                   pub_references =
                     Some [\<lparr>dt_id = ''ref-epsilon'', dt_text = ''[epsilon]'',
                            dd_innerHTML = Own ?e\<rparr>,
                           \<lparr>dt_id = ''ref-valueOf'', dt_text = ''[valueOf]'',
                            dd_innerHTML = Member ''valueOf''\<rparr>]\<rparr>)],
                [])"
    by (simp add: process_spec_def a r h xd xe references_section_def s)
  then show ?thesis
    unfolding build_def m by simp
qed

end
